theory Spec2Isabelle
  imports Main
begin

section \<open>Functional dependence on GROUP BY fields (sql/sql_func_dep.cc)\<close>

text \<open>
  A shallow embedding of the analyser of \<^verbatim>\<open>sql_func_dep.cc\<close>. Pointers to tables are
  natural numbers indexing a store of \<^verbatim>\<open>TABLE\<close> objects, the scratch bitmap
  \<^verbatim>\<open>tmp_set\<close> of a table (its Allowed-Set) is a list of booleans, one per column, and
  every function that writes a bitmap takes the store and returns the new one.
  A null pointer dereference and a cast to a class the object does not have are the
  outcome \<open>Undefined\<close>; \<^verbatim>\<open>my_error\<close> followed by the error return is the outcome
  \<open>Raised\<close>. The memory root is taken never to run out, so \<^verbatim>\<open>push_back\<close> always
  succeeds.
\<close>

subsection \<open>Tables, keys and fields\<close>

type_synonym Type_handler = nat

datatype Field = Field (field_table: nat) (field_index: nat)

record KEY =
  nosame :: bool
  user_defined_key_parts :: nat
  key_part :: "Field list"

record TABLE_LIST =
  table :: "nat option"
  is_materialized_derived :: bool

record TABLE =
  tmp_set :: "bool list"
  key_info :: "KEY list"
  primary_key :: nat
  pos_in_table_list :: TABLE_LIST

text \<open>
  A key has the flag \<^verbatim>\<open>HA_NOSAME\<close> (the field \<open>nosame\<close>) when it admits no
  duplicates. \<^verbatim>\<open>TABLE_SHARE::primary_key\<close> is \<^verbatim>\<open>MAX_KEY\<close> when the table has no
  primary key and the index of the primary key in \<^verbatim>\<open>key_info\<close> otherwise;
  \<^verbatim>\<open>TABLE_SHARE::keys\<close> is the length of \<open>key_info\<close>. \<^verbatim>\<open>MAX_KEY\<close>,
  \<^verbatim>\<open>UINT_MAX\<close> and \<^verbatim>\<open>INT_MAX\<close> have the values of the server's headers and of a
  32-bit \<^verbatim>\<open>int\<close>.
\<close>

definition MAX_KEY :: nat where
  "MAX_KEY = 64"

definition UINT_MAX :: nat where
  "UINT_MAX = 4294967295"

definition INT_MAX :: nat where
  "INT_MAX = 2147483647"

subsection \<open>Expressions\<close>

datatype Item_type = FIELD_ITEM | FUNC_ITEM | COND_ITEM | REF_ITEM | SUBSELECT_ITEM | CONST_ITEM

datatype Functype = EQ_FUNC | COND_AND_FUNC | COND_OR_FUNC | UNKNOWN_FUNC

datatype enum_parsing_place = NO_MATTER | SELECT_LIST | IN_WHERE | IN_HAVING

text \<open>
  Every node stores what its virtual methods \<^verbatim>\<open>full_name()\<close> and
  \<^verbatim>\<open>type_handler_for_comparison()\<close> return. \<open>Item_func\<close> and \<open>Item_func_eq\<close> carry
  the member \<^verbatim>\<open>is_deterministic\<close>; an \<open>Item_func_eq\<close> also carries the handler its
  comparator was set up with (\<^verbatim>\<open>compare_type_handler()\<close>) and its two arguments.
  \<open>Item_eq\<close> is the only \<^verbatim>\<open>FUNC_ITEM\<close> whose \<^verbatim>\<open>functype()\<close> is \<^verbatim>\<open>EQ_FUNC\<close>.
  An \<open>Item_subselect\<close> is identified by a number.
\<close>

datatype Item =
    Item_field string Type_handler Field
  | Item_ref string Type_handler Item
  | Item_func string Type_handler bool "Item list"
  | Item_eq Item_func_eq
  | Item_cond string Type_handler Functype "Item list"
  | Item_subselect string Type_handler nat
  | Item_const string Type_handler
and Item_func_eq =
    Item_func_eq string Type_handler bool Type_handler Item Item

fun type_of :: "Item \<Rightarrow> Item_type" where
  "type_of (Item_field n h f) = FIELD_ITEM"
| "type_of (Item_ref n h r) = REF_ITEM"
| "type_of (Item_func n h d as) = FUNC_ITEM"
| "type_of (Item_eq e) = FUNC_ITEM"
| "type_of (Item_cond n h ft as) = COND_ITEM"
| "type_of (Item_subselect n h i) = SUBSELECT_ITEM"
| "type_of (Item_const n h) = CONST_ITEM"

fun functype :: "Item \<Rightarrow> Functype" where
  "functype (Item_eq e) = EQ_FUNC"
| "functype (Item_cond n h ft as) = ft"
| "functype it = UNKNOWN_FUNC"

fun eq_full_name :: "Item_func_eq \<Rightarrow> string" where
  "eq_full_name (Item_func_eq n h d c l r) = n"

fun full_name :: "Item \<Rightarrow> string" where
  "full_name (Item_field n h f) = n"
| "full_name (Item_ref n h r) = n"
| "full_name (Item_func n h d as) = n"
| "full_name (Item_eq e) = eq_full_name e"
| "full_name (Item_cond n h ft as) = n"
| "full_name (Item_subselect n h i) = n"
| "full_name (Item_const n h) = n"

fun eq_type_handler_for_comparison :: "Item_func_eq \<Rightarrow> Type_handler" where
  "eq_type_handler_for_comparison (Item_func_eq n h d c l r) = h"

fun type_handler_for_comparison :: "Item \<Rightarrow> Type_handler" where
  "type_handler_for_comparison (Item_field n h f) = h"
| "type_handler_for_comparison (Item_ref n h r) = h"
| "type_handler_for_comparison (Item_func n h d as) = h"
| "type_handler_for_comparison (Item_eq e) = eq_type_handler_for_comparison e"
| "type_handler_for_comparison (Item_cond n h ft as) = h"
| "type_handler_for_comparison (Item_subselect n h i) = h"
| "type_handler_for_comparison (Item_const n h) = h"

fun compare_type_handler :: "Item_func_eq \<Rightarrow> Type_handler" where
  "compare_type_handler (Item_func_eq n h d c l r) = c"

fun eq_is_deterministic :: "Item_func_eq \<Rightarrow> bool" where
  "eq_is_deterministic (Item_func_eq n h d c l r) = d"

text \<open>
  \<^verbatim>\<open>((Item_func *) item)->is_deterministic\<close>. The source reads the member only after
  \<^verbatim>\<open>type() == FUNC_ITEM\<close>; the value given to the other nodes is never looked at.
\<close>

fun is_deterministic :: "Item \<Rightarrow> bool" where
  "is_deterministic (Item_func n h d as) = d"
| "is_deterministic (Item_eq e) = eq_is_deterministic e"
| "is_deterministic it = True"

fun argument0 :: "Item_func_eq \<Rightarrow> Item" where
  "argument0 (Item_func_eq n h d c l r) = l"

fun argument1 :: "Item_func_eq \<Rightarrow> Item" where
  "argument1 (Item_func_eq n h d c l r) = r"

text \<open>
  Modelled from the spec: \<^verbatim>\<open>Item::real_item()\<close> (declared with the expression classes,
  outside the analysed file) follows a pass-through reference node down to the node it
  resolves to, and is the identity on every other node.
\<close>

fun real_item :: "Item \<Rightarrow> Item" where
  "real_item (Item_ref n h r) = real_item r"
| "real_item it = it"

subsection \<open>The query block and the analysis state\<close>

record outer_select_lex =
  outer_join :: bool
  outer_leaf_tables :: "TABLE_LIST list"

text \<open>
  \<open>having\<close> is the member \<^verbatim>\<open>st_select_lex::having\<close>; \<open>join_conds\<close> and
  \<open>join_having\<close> are \<^verbatim>\<open>join->conds\<close> and \<^verbatim>\<open>join->having\<close>. \<open>master_unit_item\<close> says
  that \<^verbatim>\<open>master_unit()->item\<close> is not null, \<open>outer_select\<close> is
  \<^verbatim>\<open>master_unit()->outer_select()\<close> with \<open>outer_join\<close> saying that its \<^verbatim>\<open>join\<close> is
  not null.
\<close>

record st_select_lex =
  leaf_tables :: "TABLE_LIST list"
  select_number :: nat
  group_list :: "Item list"
  item_list :: "Item list"
  having :: "Item option"
  join_conds :: "Item option"
  join_having :: "Item option"
  master_unit_item :: bool
  outer_select :: "outer_select_lex option"

record fd_heap =
  tables :: "nat \<Rightarrow> TABLE"
  subquery_ctx :: "nat \<Rightarrow> enum_parsing_place"

datatype error = ER_NON_GROUPING_FIELD_USED string string

datatype 'a outcome = Ok 'a | Raised error fd_heap | Undefined

text \<open>
  The member \<^verbatim>\<open>equal\<close> of \<^verbatim>\<open>Item_equal_fd_info\<close> is the field \<open>equal_item\<close>.
\<close>

record Item_equal_fd_info =
  equal_item :: Item_func_eq
  fields_l :: "Field list"
  fields_r :: "Field list"

text \<open>
  The two capabilities every expression supplies, \<^verbatim>\<open>excl_func_dep_on_grouping_fields\<close>
  and \<^verbatim>\<open>excl_func_dep_from_equalities\<close>, are implemented with the expression classes
  and not in the analysed file. They are parameters of the model: arbitrary functions
  that read the state and return their boolean together with the new values of the
  in-out arguments (\<^verbatim>\<open>Item **item\<close>, and for the second one the \<^verbatim>\<open>List<Field>\<close> it
  appends to). They do not write the Allowed-Sets.
\<close>

record Item_caps =
  excl_func_dep_on_grouping_fields ::
    "fd_heap \<Rightarrow> st_select_lex \<Rightarrow> Item list \<Rightarrow> Item \<Rightarrow> Item option \<Rightarrow> bool \<times> Item option"
  excl_func_dep_from_equalities ::
    "fd_heap \<Rightarrow> st_select_lex \<Rightarrow> Item \<Rightarrow> Item option \<Rightarrow> Field list
      \<Rightarrow> bool \<times> Item option \<times> Field list"

subsection \<open>Bitmaps\<close>

text \<open>
  Modelled from the spec: the \<^verbatim>\<open>MY_BITMAP\<close> operations (mysys, outside the analysed
  file) on an Allowed-Set that holds one bit per column. A bit number beyond the map is
  never set, and setting it changes nothing.
\<close>

definition bitmap_is_set :: "bool list \<Rightarrow> nat \<Rightarrow> bool" where
  "bitmap_is_set m i = (i < length m \<and> m ! i)"

definition bitmap_set_bit :: "bool list \<Rightarrow> nat \<Rightarrow> bool list" where
  "bitmap_set_bit m i = m[i := True]"

definition bitmap_set_all :: "bool list \<Rightarrow> bool list" where
  "bitmap_set_all m = replicate (length m) True"

definition bitmap_clear_all :: "bool list \<Rightarrow> bool list" where
  "bitmap_clear_all m = replicate (length m) False"

definition bitmap_is_set_all :: "bool list \<Rightarrow> bool" where
  "bitmap_is_set_all m = list_all (\<lambda>b. b) m"

definition bitmap_is_clear_all :: "bool list \<Rightarrow> bool" where
  "bitmap_is_clear_all m = list_all (\<lambda>b. \<not> b) m"

text \<open>Writing the \<^verbatim>\<open>tmp_set\<close> of the table at address \<open>t\<close>.\<close>

definition upd_tmp_set :: "(bool list \<Rightarrow> bool list) \<Rightarrow> nat \<Rightarrow> fd_heap \<Rightarrow> fd_heap" where
  "upd_tmp_set f t h =
     h\<lparr>tables := (tables h)(t := (tables h t)\<lparr>tmp_set := f (tmp_set (tables h t))\<rparr>)\<rparr>"

subsection \<open>Key Closure\<close>

text \<open>
  Modelled from the spec: \<^verbatim>\<open>Field::excl_func_dep_on_grouping_fields\<close> (a method of the
  storage layer's \<^verbatim>\<open>Field\<close>, outside the analysed file) answers whether the column is
  allowed, that is whether its bit is set in the Allowed-Set of its table.
\<close>

definition Field_excl_func_dep_on_grouping_fields :: "fd_heap \<Rightarrow> Field \<Rightarrow> bool" where
  "Field_excl_func_dep_on_grouping_fields h fld =
     bitmap_is_set (tmp_set (tables h (field_table fld))) (field_index fld)"

fun are_key_parts_allowed :: "fd_heap \<Rightarrow> Field list \<Rightarrow> bool" where
  "are_key_parts_allowed h [] = True"
| "are_key_parts_allowed h (fld # rest) =
     (if \<not> Field_excl_func_dep_on_grouping_fields h fld then False
      else are_key_parts_allowed h rest)"

definition are_key_fields_allowed :: "fd_heap \<Rightarrow> KEY \<Rightarrow> bool" where
  "are_key_fields_allowed h key =
     are_key_parts_allowed h (take (user_defined_key_parts key) (key_part key))"

text \<open>The loop over the keys of one table: is there a unique key made of allowed fields.\<close>

fun unique_key_allowed :: "fd_heap \<Rightarrow> KEY list \<Rightarrow> bool" where
  "unique_key_allowed h [] = False"
| "unique_key_allowed h (k # ks) =
     (if nosame k \<and> are_key_fields_allowed h k then True else unique_key_allowed h ks)"

fun check_allowed_unique_keys_loop ::
  "TABLE_LIST list \<Rightarrow> bool \<Rightarrow> fd_heap \<Rightarrow> bool \<times> fd_heap" where
  "check_allowed_unique_keys_loop [] fields_extracted h = (fields_extracted, h)"
| "check_allowed_unique_keys_loop (tbl # rest) fields_extracted h =
     (case table tbl of
        None \<Rightarrow> check_allowed_unique_keys_loop rest fields_extracted h
      | Some t \<Rightarrow>
          if bitmap_is_set_all (tmp_set (tables h t))
          then check_allowed_unique_keys_loop rest fields_extracted h
          else if primary_key (tables h t) < MAX_KEY \<and>
                  are_key_fields_allowed h (key_info (tables h t) ! primary_key (tables h t))
          then check_allowed_unique_keys_loop rest True (upd_tmp_set bitmap_set_all t h)
          else if unique_key_allowed h (key_info (tables h t))
          then check_allowed_unique_keys_loop rest True (upd_tmp_set bitmap_set_all t h)
          else check_allowed_unique_keys_loop rest fields_extracted h)"

definition check_allowed_unique_keys :: "st_select_lex \<Rightarrow> fd_heap \<Rightarrow> bool \<times> fd_heap" where
  "check_allowed_unique_keys sl h = check_allowed_unique_keys_loop (leaf_tables sl) False h"

subsection \<open>Outcomes in sequence\<close>

definition obind :: "'a outcome \<Rightarrow> ('a \<Rightarrow> 'b outcome) \<Rightarrow> 'b outcome" where
  "obind m f = (case m of Ok x \<Rightarrow> f x | Raised e h \<Rightarrow> Raised e h | Undefined \<Rightarrow> Undefined)"

text \<open>
  The C cast \<^verbatim>\<open>(Item_field *) item\<close> followed by the read of the member \<^verbatim>\<open>field\<close>:
  defined when the object is an \<open>Item_field\<close>, not otherwise.
\<close>

fun item_field_cast :: "Item \<Rightarrow> Field option" where
  "item_field_cast (Item_field n h fld) = Some fld"
| "item_field_cast it = None"

definition my_error_non_grouping :: "Item \<Rightarrow> string \<Rightarrow> error" where
  "my_error_non_grouping item_arg clause =
     ER_NON_GROUPING_FIELD_USED (full_name (real_item item_arg)) clause"

subsection \<open>Derived-Table Closure\<close>

fun check_allowed_materialized_derived_loop ::
  "TABLE_LIST list \<Rightarrow> TABLE_LIST list \<Rightarrow> fd_heap \<Rightarrow> (TABLE_LIST list \<times> fd_heap) outcome" where
  "check_allowed_materialized_derived_loop [] kept h = Ok (kept, h)"
| "check_allowed_materialized_derived_loop (tbl # rest) kept h =
     (case table tbl of
        None \<Rightarrow> Undefined
      | Some t \<Rightarrow>
          if bitmap_is_clear_all (tmp_set (tables h t))
          then check_allowed_materialized_derived_loop rest (kept @ [tbl]) h
          else check_allowed_materialized_derived_loop rest kept (upd_tmp_set bitmap_set_all t h))"

definition check_allowed_materialized_derived ::
  "TABLE_LIST list \<Rightarrow> fd_heap \<Rightarrow> (bool \<times> TABLE_LIST list \<times> fd_heap) outcome" where
  "check_allowed_materialized_derived mat_derived h =
     (if mat_derived = [] then Ok (False, mat_derived, h)
      else obind (check_allowed_materialized_derived_loop mat_derived [] h)
             (\<lambda>(rem, h'). Ok (length mat_derived \<noteq> length rem, rem, h')))"

subsection \<open>Group-By Collector\<close>

fun collect_gb_fields_loop ::
  "Item list \<Rightarrow> Item list \<Rightarrow> fd_heap \<Rightarrow> (Item list \<times> fd_heap) outcome" where
  "collect_gb_fields_loop [] gb_items h = Ok (gb_items, h)"
| "collect_gb_fields_loop (ord_item # rest) gb_items h =
     (if type_of ord_item = FIELD_ITEM \<or>
         (type_of ord_item = REF_ITEM \<and> type_of (real_item ord_item) = FIELD_ITEM)
      then (case item_field_cast (real_item ord_item) of
              None \<Rightarrow> Undefined
            | Some fld \<Rightarrow>
                collect_gb_fields_loop rest gb_items
                  (upd_tmp_set (\<lambda>m. bitmap_set_bit m (field_index fld)) (field_table fld) h))
      else collect_gb_fields_loop rest (gb_items @ [ord_item]) h)"

definition collect_gb_fields ::
  "st_select_lex \<Rightarrow> TABLE_LIST list \<Rightarrow> Item list \<Rightarrow> fd_heap
    \<Rightarrow> (Item list \<times> TABLE_LIST list \<times> fd_heap) outcome" where
  "collect_gb_fields sl mat_derived gb_items h =
     (if group_list sl = [] then Ok (gb_items, mat_derived, h)
      else obind (collect_gb_fields_loop (group_list sl) gb_items h)
             (\<lambda>(gb_items', h1).
                obind (check_allowed_materialized_derived mat_derived
                         (snd (check_allowed_unique_keys sl h1)))
                  (\<lambda>(shrunk, mat_derived', h3). Ok (gb_items', mat_derived', h3))))"

subsection \<open>Subquery Context Tagger\<close>

text \<open>
  Modelled from the spec: \<^verbatim>\<open>Item::with_subquery()\<close>, \<^verbatim>\<open>Item::walk\<close> and
  \<^verbatim>\<open>Item::set_subquery_ctx\<close> (expression classes, outside the analysed file) tag every
  subquery expression reachable from an expression with the clause it stands in.
\<close>

fun subselects :: "Item \<Rightarrow> nat list"
  and eq_subselects :: "Item_func_eq \<Rightarrow> nat list" where
  "subselects (Item_field n h f) = []"
| "subselects (Item_ref n h r) = subselects r"
| "subselects (Item_func n h d as) = concat (map subselects as)"
| "subselects (Item_eq e) = eq_subselects e"
| "subselects (Item_cond n h ft as) = concat (map subselects as)"
| "subselects (Item_subselect n h i) = [i]"
| "subselects (Item_const n h) = []"
| "eq_subselects (Item_func_eq n h d c l r) = subselects l @ subselects r"

definition with_subquery :: "Item \<Rightarrow> bool" where
  "with_subquery it = (subselects it \<noteq> [])"

definition walk_set_subquery_ctx :: "enum_parsing_place \<Rightarrow> Item \<Rightarrow> fd_heap \<Rightarrow> fd_heap" where
  "walk_set_subquery_ctx ctx it h =
     h\<lparr>subquery_ctx := fold (\<lambda>i c. c(i := ctx)) (subselects it) (subquery_ctx h)\<rparr>"

fun set_subqueries_context_list :: "Item list \<Rightarrow> fd_heap \<Rightarrow> fd_heap" where
  "set_subqueries_context_list [] h = h"
| "set_subqueries_context_list (item # rest) h =
     set_subqueries_context_list rest
       (if with_subquery item then walk_set_subquery_ctx SELECT_LIST item h else h)"

definition set_subqueries_context :: "st_select_lex \<Rightarrow> fd_heap \<Rightarrow> fd_heap" where
  "set_subqueries_context sl h =
     (let h1 = set_subqueries_context_list (item_list sl) h;
          h2 = (case join_conds sl of
                  None \<Rightarrow> h1
                | Some cond \<Rightarrow>
                    if with_subquery cond then walk_set_subquery_ctx IN_WHERE cond h1 else h1)
      in (case join_having sl of
            None \<Rightarrow> h2
          | Some hv \<Rightarrow>
              if with_subquery hv then walk_set_subquery_ctx IN_HAVING hv h2 else h2))"

subsection \<open>Validator\<close>

fun are_select_list_fields_allowed_loop ::
  "Item_caps \<Rightarrow> st_select_lex \<Rightarrow> Item list \<Rightarrow> Item list \<Rightarrow> fd_heap \<Rightarrow> bool outcome" where
  "are_select_list_fields_allowed_loop caps sl gb_items [] h = Ok True"
| "are_select_list_fields_allowed_loop caps sl gb_items (item # rest) h =
     (case excl_func_dep_on_grouping_fields caps h sl gb_items item None of
        (True, item_arg) \<Rightarrow> are_select_list_fields_allowed_loop caps sl gb_items rest h
      | (False, Some item_arg) \<Rightarrow> Raised (my_error_non_grouping item_arg ''SELECT list'') h
      | (False, None) \<Rightarrow> Undefined)"

definition are_select_list_fields_allowed ::
  "Item_caps \<Rightarrow> st_select_lex \<Rightarrow> Item list \<Rightarrow> fd_heap \<Rightarrow> bool outcome" where
  "are_select_list_fields_allowed caps sl gb_items h =
     are_select_list_fields_allowed_loop caps sl gb_items (item_list sl) h"

definition are_having_fields_allowed ::
  "Item_caps \<Rightarrow> st_select_lex \<Rightarrow> Item option \<Rightarrow> Item list \<Rightarrow> fd_heap \<Rightarrow> bool outcome" where
  "are_having_fields_allowed caps sl hv gb_items h =
     (case hv of
        None \<Rightarrow> Ok True
      | Some having_item \<Rightarrow>
          (case excl_func_dep_on_grouping_fields caps h sl gb_items having_item None of
             (True, item_arg) \<Rightarrow> Ok True
           | (False, Some item_arg) \<Rightarrow> Raised (my_error_non_grouping item_arg ''HAVING clause'') h
           | (False, None) \<Rightarrow> Undefined))"

subsection \<open>Equality Closure: single-field extraction\<close>

definition extract_new_func_dep_field ::
  "Item_func_eq \<Rightarrow> Item \<Rightarrow> Item \<Rightarrow> fd_heap \<Rightarrow> (bool \<times> fd_heap) outcome" where
  "extract_new_func_dep_field eq dp_part nd_part h =
     (if type_of (real_item nd_part) \<noteq> FIELD_ITEM \<or>
         type_handler_for_comparison dp_part \<noteq> compare_type_handler eq
      then Ok (False, h)
      else (case item_field_cast nd_part of
              None \<Rightarrow> Undefined
            | Some fld \<Rightarrow>
                if bitmap_is_set (tmp_set (tables h (field_table fld))) (field_index fld)
                then Ok (False, h)
                else (let h1 = upd_tmp_set (\<lambda>m. bitmap_set_bit m (field_index fld))
                                 (field_table fld) h
                      in if is_materialized_derived
                              (pos_in_table_list (tables h1 (field_table fld)))
                         then Ok (True, upd_tmp_set bitmap_set_all (field_table fld) h1)
                         else Ok (True, h1))))"

subsection \<open>Equality Closure: one equality of the WHERE clause\<close>

definition check_equality_on_new_func_dep ::
  "Item_caps \<Rightarrow> Item_func_eq \<Rightarrow> st_select_lex \<Rightarrow> Item_equal_fd_info list \<Rightarrow> fd_heap
    \<Rightarrow> (Item_equal_fd_info list \<times> fd_heap) outcome" where
  "check_equality_on_new_func_dep caps eq_item sl eq_items h =
     (let item_l = argument0 eq_item; item_r = argument1 eq_item in
      if (type_of item_l = FUNC_ITEM \<and> \<not> is_deterministic item_l) \<or>
         (type_of item_r = FUNC_ITEM \<and> \<not> is_deterministic item_r)
      then Ok (eq_items, h)
      else
        (case excl_func_dep_from_equalities caps h sl item_l None [] of
           (dep_l, item_arg1, flds_l) \<Rightarrow>
             if \<not> dep_l \<and> flds_l = []
             then (case item_arg1 of
                     Some a \<Rightarrow> Raised (my_error_non_grouping a ''WHERE clause'') h
                   | None \<Rightarrow> Ok (eq_items, h))
             else
               (case excl_func_dep_from_equalities caps h sl item_r item_arg1 [] of
                  (dep_r, item_arg2, flds_r) \<Rightarrow>
                    if (dep_l \<and> dep_r) \<or> (\<not> dep_r \<and> flds_r = []) \<or>
                       (length flds_l \<noteq> 1 \<and> length flds_r \<noteq> 1)
                    then (case item_arg2 of
                            Some a \<Rightarrow> Raised (my_error_non_grouping a ''WHERE clause'') h
                          | None \<Rightarrow> Ok (eq_items, h))
                    else if \<not> dep_l \<and> \<not> dep_r
                    then Ok (eq_items @
                               [\<lparr>equal_item = eq_item, fields_l = flds_l, fields_r = flds_r\<rparr>], h)
                    else if dep_l
                    then obind (extract_new_func_dep_field eq_item item_l item_r h)
                           (\<lambda>(b, h'). Ok (eq_items, h'))
                    else if dep_r
                    then obind (extract_new_func_dep_field eq_item item_r item_l h)
                           (\<lambda>(b, h'). Ok (eq_items, h'))
                    else Ok (eq_items, h))))"

subsection \<open>Equality Closure: the pass over the WHERE clause\<close>

text \<open>
  \<^verbatim>\<open>item_arg\<close> and \<^verbatim>\<open>fields\<close> are variables of the whole function, handed to every
  non-equality conjunct in turn.
\<close>

definition check_where_other ::
  "Item_caps \<Rightarrow> st_select_lex \<Rightarrow> Item \<Rightarrow> Item option \<Rightarrow> Field list \<Rightarrow> fd_heap
    \<Rightarrow> (Item option \<times> Field list) outcome" where
  "check_where_other caps sl item item_arg flds h =
     (case excl_func_dep_from_equalities caps h sl item item_arg flds of
        (dep, item_arg', flds') \<Rightarrow>
          (case item_arg' of
             Some a \<Rightarrow>
               if \<not> dep then Raised (my_error_non_grouping a ''WHERE clause'') h
               else Ok (item_arg', flds')
           | None \<Rightarrow> Ok (item_arg', flds')))"

fun check_where_conjuncts ::
  "Item_caps \<Rightarrow> st_select_lex \<Rightarrow> Item list \<Rightarrow> Item option \<Rightarrow> Field list \<Rightarrow> nat
    \<Rightarrow> Item_equal_fd_info list \<Rightarrow> fd_heap
    \<Rightarrow> (nat \<times> Item_equal_fd_info list \<times> fd_heap) outcome" where
  "check_where_conjuncts caps sl [] item_arg flds eq_count eq_items h =
     Ok (eq_count, eq_items, h)"
| "check_where_conjuncts caps sl (item # rest) item_arg flds eq_count eq_items h =
     (case item of
        Item_eq e \<Rightarrow>
          obind (check_equality_on_new_func_dep caps e sl eq_items h)
            (\<lambda>(eq_items', h').
               check_where_conjuncts caps sl rest item_arg flds (Suc eq_count) eq_items' h')
      | _ \<Rightarrow>
          obind (check_where_other caps sl item item_arg flds h)
            (\<lambda>(item_arg', flds').
               check_where_conjuncts caps sl rest item_arg' flds' eq_count eq_items h))"

definition check_where_first_pass ::
  "Item_caps \<Rightarrow> st_select_lex \<Rightarrow> Item \<Rightarrow> fd_heap
    \<Rightarrow> (nat \<times> Item_equal_fd_info list \<times> fd_heap) outcome" where
  "check_where_first_pass caps sl cond h =
     (if type_of cond = COND_ITEM \<and> functype cond = COND_AND_FUNC
      then (case cond of
              Item_cond n th ft argument_list \<Rightarrow>
                check_where_conjuncts caps sl argument_list None [] 0 [] h
            | _ \<Rightarrow> Undefined)
      else (case cond of
              Item_eq e \<Rightarrow>
                obind (check_equality_on_new_func_dep caps e sl [] h)
                  (\<lambda>(eq_items', h'). Ok (Suc 0, eq_items', h'))
            | _ \<Rightarrow>
                obind (check_where_other caps sl cond None [] h)
                  (\<lambda>(item_arg', flds'). Ok (0, [], h))))"

subsection \<open>Equality Closure: the fixed-point loop\<close>

definition fields_allowed :: "fd_heap \<Rightarrow> Field list \<Rightarrow> bool" where
  "fields_allowed h flds =
     foldl (\<lambda>dep fld. dep \<and> Field_excl_func_dep_on_grouping_fields h fld) True flds"

text \<open>
  The body of the inner loop for one entry of the worklist. The result says whether
  the entry was removed (\<^verbatim>\<open>li.remove()\<close>), the new value of \<^verbatim>\<open>extracted\<close>, and the
  new store.
\<close>

definition deferred_equality_step ::
  "Item_equal_fd_info \<Rightarrow> bool \<Rightarrow> fd_heap \<Rightarrow> (bool \<times> bool \<times> fd_heap) outcome" where
  "deferred_equality_step eq_it extracted h =
     (let dep_l = fields_allowed h (fields_l eq_it);
          dep_r = fields_allowed h (fields_r eq_it)
      in if \<not> dep_l \<and> \<not> dep_r then Ok (False, extracted, h)
         else if \<not> (dep_l \<and> dep_r)
         then obind (if dep_l
                     then extract_new_func_dep_field (equal_item eq_it)
                            (argument0 (equal_item eq_it)) (argument1 (equal_item eq_it)) h
                     else Ok (False, h))
                (\<lambda>(b1, h1).
                   if b1 then Ok (True, True, h1)
                   else obind (if dep_r
                               then extract_new_func_dep_field (equal_item eq_it)
                                      (argument1 (equal_item eq_it)) (argument0 (equal_item eq_it)) h1
                               else Ok (False, h1))
                          (\<lambda>(b2, h2). Ok (True, (if b2 then True else extracted), h2)))
         else Ok (True, extracted, h))"

fun deferred_equalities_pass ::
  "Item_equal_fd_info list \<Rightarrow> Item_equal_fd_info list \<Rightarrow> bool \<Rightarrow> fd_heap
    \<Rightarrow> (bool \<times> Item_equal_fd_info list \<times> fd_heap) outcome" where
  "deferred_equalities_pass [] kept extracted h = Ok (extracted, kept, h)"
| "deferred_equalities_pass (eq_it # rest) kept extracted h =
     obind (deferred_equality_step eq_it extracted h)
       (\<lambda>(removed, extracted', h').
          deferred_equalities_pass rest (if removed then kept else kept @ [eq_it])
            extracted' h')"

text \<open>One round of the outer loop: the pass over the worklist, then Key Closure.\<close>

definition deferred_round ::
  "st_select_lex \<Rightarrow> Item_equal_fd_info list \<Rightarrow> fd_heap
    \<Rightarrow> (bool \<times> Item_equal_fd_info list \<times> fd_heap) outcome" where
  "deferred_round sl eq_items h =
     obind (deferred_equalities_pass eq_items [] False h)
       (\<lambda>(extracted, eq_items', h1).
          if \<not> extracted \<or> eq_items' = []
          then (case check_allowed_unique_keys sl h1 of
                  (k, h2) \<Rightarrow> Ok ((if k then True else extracted), eq_items', h2))
          else Ok (extracted, eq_items', h1))"

text \<open>
  The outer loop, \<^verbatim>\<open>while (extracted && !eq_items.is_empty())\<close>. The result \<open>None\<close>
  stands for a loop that never ends, and the functions that call the loop hand it on.
\<close>

partial_function (option) deferred_loop ::
  "st_select_lex \<Rightarrow> bool \<Rightarrow> Item_equal_fd_info list \<Rightarrow> fd_heap \<Rightarrow> fd_heap outcome option" where
  "deferred_loop sl extracted eq_items h =
     (if extracted \<and> eq_items \<noteq> []
      then (case deferred_round sl eq_items h of
              Ok r \<Rightarrow> deferred_loop sl (fst r) (fst (snd r)) (snd (snd r))
            | Raised e x \<Rightarrow> Some (Raised e x)
            | Undefined \<Rightarrow> Some Undefined)
      else Some (Ok h))"

definition check_where_and_get_new_dependencies ::
  "Item_caps \<Rightarrow> st_select_lex \<Rightarrow> TABLE_LIST list \<Rightarrow> fd_heap \<Rightarrow> fd_heap outcome option" where
  "check_where_and_get_new_dependencies caps sl mat_derived h =
     (case join_conds sl of
        None \<Rightarrow> Some (Ok h)
      | Some cond \<Rightarrow>
          (case check_where_first_pass caps sl cond h of
             Ok (eq_count, eq_items, h1) \<Rightarrow>
               if eq_items = [] then Some (Ok (snd (check_allowed_unique_keys sl h1)))
               else if eq_count = length eq_items then Some (Ok h1)
               else deferred_loop sl True eq_items h1
           | Raised e x \<Rightarrow> Some (Raised e x)
           | Undefined \<Rightarrow> Some Undefined))"

subsection \<open>The UPDATE special case\<close>

fun set_all_leaf_tables :: "TABLE_LIST list \<Rightarrow> fd_heap \<Rightarrow> fd_heap outcome" where
  "set_all_leaf_tables [] h = Ok h"
| "set_all_leaf_tables (tbl # rest) h =
     (case table tbl of
        None \<Rightarrow> Undefined
      | Some t \<Rightarrow> set_all_leaf_tables rest (upd_tmp_set bitmap_set_all t h))"

definition set_update_table_fields :: "st_select_lex \<Rightarrow> fd_heap \<Rightarrow> fd_heap outcome" where
  "set_update_table_fields sl h =
     (if \<not> master_unit_item sl then Ok h
      else (case outer_select sl of
              None \<Rightarrow> Ok h
            | Some outer \<Rightarrow>
                if outer_join outer then Ok h
                else set_all_leaf_tables (outer_leaf_tables outer) h))"

subsection \<open>Top-level control\<close>

fun clear_leaf_tables ::
  "TABLE_LIST list \<Rightarrow> TABLE_LIST list \<Rightarrow> fd_heap \<Rightarrow> TABLE_LIST list \<times> fd_heap" where
  "clear_leaf_tables [] mat_derived h = (mat_derived, h)"
| "clear_leaf_tables (tbl # rest) mat_derived h =
     (case table tbl of
        None \<Rightarrow> clear_leaf_tables rest mat_derived h
      | Some t \<Rightarrow>
          clear_leaf_tables rest
            (if is_materialized_derived tbl then mat_derived @ [tbl] else mat_derived)
            (upd_tmp_set bitmap_clear_all t h))"

definition need_check :: "st_select_lex \<Rightarrow> bool" where
  "need_check sl =
     (0 < length (group_list sl) \<or>
      (case outer_select sl of None \<Rightarrow> False | Some outer \<Rightarrow> outer_join outer) \<or>
      having sl \<noteq> None)"

text \<open>What \<^verbatim>\<open>check_func_dep\<close> does from the Group-By Collector on.\<close>

definition check_func_dep_closure ::
  "Item_caps \<Rightarrow> st_select_lex \<Rightarrow> TABLE_LIST list \<Rightarrow> fd_heap \<Rightarrow> fd_heap outcome option" where
  "check_func_dep_closure caps sl mat_derived h =
     (case collect_gb_fields sl mat_derived [] h of
        Ok (gb_items, mat_derived', h1) \<Rightarrow>
          (case check_where_and_get_new_dependencies caps sl mat_derived' h1 of
             None \<Rightarrow> None
           | Some (Ok h2) \<Rightarrow>
               Some (obind (are_select_list_fields_allowed caps sl gb_items h2)
                       (\<lambda>ok1. obind (are_having_fields_allowed caps sl (join_having sl)
                                         gb_items h2)
                                 (\<lambda>ok2. Ok h2)))
           | Some (Raised e x) \<Rightarrow> Some (Raised e x)
           | Some Undefined \<Rightarrow> Some Undefined)
      | Raised e x \<Rightarrow> Some (Raised e x)
      | Undefined \<Rightarrow> Some Undefined)"

text \<open>What \<^verbatim>\<open>check_func_dep\<close> does once the Allowed-Sets of its tables are cleared.\<close>

definition check_func_dep_cleared ::
  "Item_caps \<Rightarrow> st_select_lex \<Rightarrow> TABLE_LIST list \<Rightarrow> fd_heap \<Rightarrow> fd_heap outcome option" where
  "check_func_dep_cleared caps sl mat_derived h0 =
     (case set_update_table_fields sl h0 of
        Ok h1 \<Rightarrow>
          (let h2 = set_subqueries_context sl h1 in
           if length (group_list sl) = 0 \<and> having sl = None
           then (case set_all_leaf_tables (leaf_tables sl) h2 of
                   Ok h3 \<Rightarrow>
                     if \<not> need_check sl then Some (Ok h3)
                     else check_func_dep_closure caps sl mat_derived h3
                 | Raised e x \<Rightarrow> Some (Raised e x)
                 | Undefined \<Rightarrow> Some Undefined)
           else check_func_dep_closure caps sl mat_derived h2)
      | Raised e x \<Rightarrow> Some (Raised e x)
      | Undefined \<Rightarrow> Some Undefined)"

definition check_func_dep ::
  "Item_caps \<Rightarrow> st_select_lex \<Rightarrow> fd_heap \<Rightarrow> fd_heap outcome option" where
  "check_func_dep caps sl h =
     (if leaf_tables sl = [] \<or> select_number sl = UINT_MAX \<or> select_number sl = INT_MAX
      then Some (Ok h)
      else (case clear_leaf_tables (leaf_tables sl) [] h of
              (mat_derived, h0) \<Rightarrow> check_func_dep_cleared caps sl mat_derived h0))"

section \<open>Notions of the statements, and scenarios\<close>

subsection \<open>Notions used in the statements\<close>

text \<open>
  \<open>allowed_sets_grow h h'\<close>: every bit set in an Allowed-Set of \<open>h\<close> is set in \<open>h'\<close>.
  \<open>heap_grows h h'\<close> says in addition that nothing but the Allowed-Sets differs between
  the two stores and that no Allowed-Set changed its size.
\<close>

definition allowed_sets_grow :: "fd_heap \<Rightarrow> fd_heap \<Rightarrow> bool" where
  "allowed_sets_grow h h' =
     (\<forall>t i. bitmap_is_set (tmp_set (tables h t)) i \<longrightarrow> bitmap_is_set (tmp_set (tables h' t)) i)"

definition heap_grows :: "fd_heap \<Rightarrow> fd_heap \<Rightarrow> bool" where
  "heap_grows h h' =
     (\<forall>t. key_info (tables h' t) = key_info (tables h t) \<and>
          primary_key (tables h' t) = primary_key (tables h t) \<and>
          pos_in_table_list (tables h' t) = pos_in_table_list (tables h t) \<and>
          length (tmp_set (tables h' t)) = length (tmp_set (tables h t)) \<and>
          (\<forall>i. bitmap_is_set (tmp_set (tables h t)) i \<longrightarrow>
               bitmap_is_set (tmp_set (tables h' t)) i))"

text \<open>The table at \<open>t\<close> has a primary key, or else a unique key, made of allowed fields.\<close>

definition key_covered :: "fd_heap \<Rightarrow> nat \<Rightarrow> bool" where
  "key_covered h t =
     ((primary_key (tables h t) < MAX_KEY \<and>
       are_key_fields_allowed h (key_info (tables h t) ! primary_key (tables h t))) \<or>
      (\<exists>k \<in> set (key_info (tables h t)). nosame k \<and> are_key_fields_allowed h k))"

text \<open>The store of an outcome, when it has one, has grown from \<open>h\<close>.\<close>

definition grows_to :: "fd_heap \<Rightarrow> ('a \<Rightarrow> fd_heap) \<Rightarrow> 'a outcome \<Rightarrow> bool" where
  "grows_to h proj r =
     (case r of Ok x \<Rightarrow> heap_grows h (proj x) | Raised e x \<Rightarrow> heap_grows h x | Undefined \<Rightarrow> True)"

fun final_heap :: "fd_heap outcome \<Rightarrow> fd_heap option" where
  "final_heap (Ok h) = Some h"
| "final_heap (Raised e h) = Some h"
| "final_heap Undefined = None"

text \<open>The number of leaf tables of the query block whose Allowed-Set is not yet full.\<close>

definition unresolved_tables :: "st_select_lex \<Rightarrow> fd_heap \<Rightarrow> nat" where
  "unresolved_tables sl h =
     length (filter (\<lambda>tbl. case table tbl of
                               None \<Rightarrow> False
                             | Some t \<Rightarrow> \<not> bitmap_is_set_all (tmp_set (tables h t)))
               (leaf_tables sl))"

text \<open>An error that names one of the three clauses, and an outcome that raises no other.\<close>

definition clause_ok :: "error \<Rightarrow> bool" where
  "clause_ok e =
     (case e of ER_NON_GROUPING_FIELD_USED name clause \<Rightarrow>
        clause \<in> {''SELECT list'', ''HAVING clause'', ''WHERE clause''})"

definition known_clause :: "'a outcome \<Rightarrow> bool" where
  "known_clause r = (case r of Raised e x \<Rightarrow> clause_ok e | _ \<Rightarrow> True)"

text \<open>
  An expression contains a non-deterministic function call: it is such a call, or one
  stands behind a reference node, among the arguments of a function or of a
  condition, or on a side of an equality.
\<close>

fun contains_non_deterministic :: "Item \<Rightarrow> bool"
  and eq_contains_non_deterministic :: "Item_func_eq \<Rightarrow> bool" where
  "contains_non_deterministic (Item_field n h f) = False"
| "contains_non_deterministic (Item_ref n h r) = contains_non_deterministic r"
| "contains_non_deterministic (Item_func n h d as) =
     (\<not> d \<or> list_ex contains_non_deterministic as)"
| "contains_non_deterministic (Item_eq e) = eq_contains_non_deterministic e"
| "contains_non_deterministic (Item_cond n h ft as) = list_ex contains_non_deterministic as"
| "contains_non_deterministic (Item_subselect n h i) = False"
| "contains_non_deterministic (Item_const n h) = False"
| "eq_contains_non_deterministic (Item_func_eq n h d c l r) =
     (\<not> d \<or> contains_non_deterministic l \<or> contains_non_deterministic r)"

subsection \<open>The tables, query blocks and expressions of the scenarios\<close>

text \<open>
  The table \<^verbatim>\<open>t(pk int primary key, a int, b int)\<close> at address 0, with a given
  Allowed-Set, and a query block over it with a given GROUP BY list, SELECT list and
  WHERE clause.
\<close>

definition t_leaf :: TABLE_LIST where
  "t_leaf = \<lparr>table = Some 0, is_materialized_derived = False\<rparr>"

definition t_table :: "bool list \<Rightarrow> TABLE" where
  "t_table bits =
     \<lparr>tmp_set = bits,
      key_info = [\<lparr>nosame = True, user_defined_key_parts = 1, key_part = [Field 0 0]\<rparr>],
      primary_key = 0,
      pos_in_table_list = t_leaf\<rparr>"

definition t_heap :: "bool list \<Rightarrow> fd_heap" where
  "t_heap bits = \<lparr>tables = (\<lambda>a. t_table bits), subquery_ctx = (\<lambda>i. NO_MATTER)\<rparr>"

definition t_pk :: Item where
  "t_pk = Item_field ''t.pk'' 0 (Field 0 0)"

definition t_a :: Item where
  "t_a = Item_field ''t.a'' 0 (Field 0 1)"

definition t_b :: Item where
  "t_b = Item_field ''t.b'' 0 (Field 0 2)"

definition t_select :: "Item list \<Rightarrow> Item list \<Rightarrow> Item option \<Rightarrow> st_select_lex" where
  "t_select gb sel cond =
     \<lparr>leaf_tables = [t_leaf], select_number = 1, group_list = gb, item_list = sel,
      having = None, join_conds = cond, join_having = None, master_unit_item = False,
      outer_select = None\<rparr>"

text \<open>
  Modelled from the spec: an instance of the two expression capabilities (section 3 of
  the specification), with which the scenarios are run. The column references of an
  expression are collected in order; an expression is excluded from functional
  dependence when it is one of the grouping expressions or when every column it refers
  to is allowed, and the first column that is not allowed is the offending
  sub-expression; an expression is closed when every column it refers to is allowed.
\<close>

fun field_items :: "Item \<Rightarrow> Item list"
  and eq_field_items :: "Item_func_eq \<Rightarrow> Item list" where
  "field_items (Item_field n h f) = [Item_field n h f]"
| "field_items (Item_ref n h r) = field_items r"
| "field_items (Item_func n h d as) = concat (map field_items as)"
| "field_items (Item_eq e) = eq_field_items e"
| "field_items (Item_cond n h ft as) = concat (map field_items as)"
| "field_items (Item_subselect n h i) = []"
| "field_items (Item_const n h) = []"
| "eq_field_items (Item_func_eq n h d c l r) = field_items l @ field_items r"

definition item_allowed :: "fd_heap \<Rightarrow> Item \<Rightarrow> bool" where
  "item_allowed h it =
     (case item_field_cast it of
        None \<Rightarrow> True
      | Some fld \<Rightarrow> Field_excl_func_dep_on_grouping_fields h fld)"

definition t_caps :: Item_caps where
  "t_caps =
     \<lparr>excl_func_dep_on_grouping_fields =
        (\<lambda>h sl gb_items it item_arg.
           if it \<in> set gb_items then (True, item_arg)
           else (case find (\<lambda>x. \<not> item_allowed h x) (field_items it) of
                   None \<Rightarrow> (True, item_arg)
                 | Some x \<Rightarrow> (False, Some x))),
      excl_func_dep_from_equalities =
        (\<lambda>h sl it item_arg flds.
           (list_all (item_allowed h) (field_items it), item_arg,
            flds @ List.map_filter item_field_cast (field_items it)))\<rparr>"

text \<open>
  Modelled from the spec: a second instance of the capability that classifies the sides
  of the WHERE clause, for a query block all of whose column references are references
  to an outer query block: a reference to a column that is not allowed is reported as
  the offending expression.
\<close>

definition outer_ref_caps :: Item_caps where
  "outer_ref_caps =
     t_caps\<lparr>excl_func_dep_from_equalities :=
        (\<lambda>h sl it item_arg flds.
           (case find (\<lambda>x. \<not> item_allowed h x) (field_items it) of
              None \<Rightarrow> (True, item_arg, flds)
            | Some x \<Rightarrow> (False, Some x, flds)))\<rparr>"

text \<open>The expressions and WHERE clauses of the scenarios.\<close>

definition eq_a_b :: Item_func_eq where
  "eq_a_b = Item_func_eq ''t.a = t.b'' 0 True 0 t_a t_b"

definition deferred_a_b :: Item_equal_fd_info where
  "deferred_a_b = \<lparr>equal_item = eq_a_b, fields_l = [Field 0 1], fields_r = [Field 0 2]\<rparr>"

definition eq_pk_1 :: Item_func_eq where
  "eq_pk_1 = Item_func_eq ''t.pk = 1'' 0 True 0 t_pk (Item_const ''1'' 0)"

definition where_a_b_and_pk_1 :: Item where
  "where_a_b_and_pk_1 =
     Item_cond ''(t.a = t.b) and (t.pk = 1)'' 0 COND_AND_FUNC [Item_eq eq_a_b, Item_eq eq_pk_1]"

definition a_plus_1 :: Item where
  "a_plus_1 = Item_func ''t.a + 1'' 0 True [t_a, Item_const ''1'' 0]"

definition eq_b_a_plus_1 :: Item_func_eq where
  "eq_b_a_plus_1 = Item_func_eq ''t.b = t.a + 1'' 0 True 0 t_b a_plus_1"

definition eq_b_pk :: Item_func_eq where
  "eq_b_pk = Item_func_eq ''t.b = t.pk'' 0 True 0 t_b t_pk"

definition eq_pk_a :: Item_func_eq where
  "eq_pk_a = Item_func_eq ''t.pk = t.a'' 0 True 0 t_pk t_a"

definition where_b_pk_and_pk_a :: Item where
  "where_b_pk_and_pk_a =
     Item_cond ''(t.b = t.pk) and (t.pk = t.a)'' 0 COND_AND_FUNC [Item_eq eq_b_pk, Item_eq eq_pk_a]"

definition rand_call :: Item where
  "rand_call = Item_func ''rand()'' 0 False []"

definition eq_b_rand :: Item_func_eq where
  "eq_b_rand = Item_func_eq ''t.b = rand()'' 0 True 0 t_b rand_call"

text \<open>
  The column \<^verbatim>\<open>b\<close> seen through a reference node, as the column of a merged view is,
  and the equality \<^verbatim>\<open>t.a = v.b\<close>.
\<close>

definition v_b :: Item where
  "v_b = Item_ref ''v.b'' 0 t_b"

definition eq_a_v_b :: Item_func_eq where
  "eq_a_v_b = Item_func_eq ''t.a = v.b'' 0 True 0 t_a v_b"

text \<open>
  A materialized derived table at address 0, and a subquery block over it, without GROUP
  BY and HAVING, under an aggregating join.
\<close>

definition m_leaf :: TABLE_LIST where
  "m_leaf = \<lparr>table = Some 0, is_materialized_derived = True\<rparr>"

definition m_heap :: "bool list \<Rightarrow> fd_heap" where
  "m_heap bits =
     \<lparr>tables = (\<lambda>a. \<lparr>tmp_set = bits, key_info = [], primary_key = MAX_KEY,
                        pos_in_table_list = m_leaf\<rparr>),
      subquery_ctx = (\<lambda>i. NO_MATTER)\<rparr>"

definition m_select :: st_select_lex where
  "m_select =
     \<lparr>leaf_tables = [m_leaf], select_number = 2, group_list = [], item_list = [t_a],
      having = None, join_conds = None, join_having = None, master_unit_item = True,
      outer_select = Some \<lparr>outer_join = True, outer_leaf_tables = []\<rparr>\<rparr>"

text \<open>
  A leaf table without a table object (its \<^verbatim>\<open>table\<close> pointer is null), and a query
  block over \<^verbatim>\<open>t\<close> and that table, without GROUP BY, HAVING and WHERE and with no block
  around it.
\<close>

definition u_leaf :: TABLE_LIST where
  "u_leaf = \<lparr>table = None, is_materialized_derived = False\<rparr>"

definition u_select :: "Item list \<Rightarrow> st_select_lex" where
  "u_select sel =
     \<lparr>leaf_tables = [t_leaf, u_leaf], select_number = 1, group_list = [], item_list = sel,
      having = None, join_conds = None, join_having = None, master_unit_item = False,
      outer_select = None\<rparr>"

text \<open>
  The call \<^verbatim>\<open>rand()\<close> seen through a reference node, as the column \<^verbatim>\<open>r\<close> of a merged
  view defined with it is, and inside a condition; the equalities \<^verbatim>\<open>t.b = v.r\<close> and
  \<^verbatim>\<open>t.b = (rand() or 1)\<close>.
\<close>

definition v_r :: Item where
  "v_r = Item_ref ''v.r'' 0 rand_call"

definition eq_b_v_r :: Item_func_eq where
  "eq_b_v_r = Item_func_eq ''t.b = v.r'' 0 True 0 t_b v_r"

definition rand_or_1 :: Item where
  "rand_or_1 = Item_cond ''rand() or 1'' 0 COND_OR_FUNC [rand_call, Item_const ''1'' 0]"

definition eq_b_rand_or_1 :: Item_func_eq where
  "eq_b_rand_or_1 = Item_func_eq ''t.b = (rand() or 1)'' 0 True 0 t_b rand_or_1"

section \<open>Lemmas\<close>

subsection \<open>Allowed-Sets only grow: the building blocks\<close>

lemma heap_grows_refl: "heap_grows h h"
  by (simp add: heap_grows_def)

lemma heap_grows_trans: "heap_grows h1 h2 \<Longrightarrow> heap_grows h2 h3 \<Longrightarrow> heap_grows h1 h3"
  by (simp add: heap_grows_def)

lemma bitmap_set_bit_keeps:
  "bitmap_is_set m j \<Longrightarrow> bitmap_is_set (bitmap_set_bit m i) j"
  by (cases "i = j") (simp_all add: bitmap_set_bit_def bitmap_is_set_def)

lemma heap_grows_set_bit: "heap_grows h (upd_tmp_set (\<lambda>m. bitmap_set_bit m i) t h)"
  by (simp add: heap_grows_def upd_tmp_set_def bitmap_set_bit_keeps)
     (simp add: bitmap_set_bit_def)

lemma heap_grows_set_all: "heap_grows h (upd_tmp_set bitmap_set_all t h)"
  by (auto simp: heap_grows_def upd_tmp_set_def bitmap_set_all_def bitmap_is_set_def)

lemma are_key_parts_allowed_iff:
  "are_key_parts_allowed h flds = (\<forall>f \<in> set flds. Field_excl_func_dep_on_grouping_fields h f)"
  by (induction flds) auto

lemma field_allowed_mono:
  "heap_grows h h' \<Longrightarrow> Field_excl_func_dep_on_grouping_fields h f \<Longrightarrow>
   Field_excl_func_dep_on_grouping_fields h' f"
  by (simp add: heap_grows_def Field_excl_func_dep_on_grouping_fields_def)

lemma are_key_fields_allowed_mono:
  "heap_grows h h' \<Longrightarrow> are_key_fields_allowed h k \<Longrightarrow> are_key_fields_allowed h' k"
  by (auto simp: are_key_fields_allowed_def are_key_parts_allowed_iff intro: field_allowed_mono)

lemma unique_key_allowed_iff:
  "unique_key_allowed h ks = (\<exists>k \<in> set ks. nosame k \<and> are_key_fields_allowed h k)"
  by (induction ks) auto

lemma is_set_all_mono:
  "heap_grows h h' \<Longrightarrow> bitmap_is_set_all (tmp_set (tables h t)) \<Longrightarrow>
   bitmap_is_set_all (tmp_set (tables h' t))"
  unfolding heap_grows_def bitmap_is_set_all_def bitmap_is_set_def list_all_length
  by metis

lemma is_set_all_upd: "bitmap_is_set_all (tmp_set (tables (upd_tmp_set bitmap_set_all t h) t))"
  by (simp add: upd_tmp_set_def bitmap_set_all_def bitmap_is_set_all_def list_all_length)

lemma keys_loop_grows:
  "check_allowed_unique_keys_loop tbls fe h = (b, h') \<Longrightarrow> heap_grows h h'"
proof (induction tbls fe h rule: check_allowed_unique_keys_loop.induct)
  case (1 fe h)
  then show ?case by (simp add: heap_grows_refl)
next
  case (2 tbl rest fe h)
  then show ?case
    by (auto split: option.splits if_splits
        intro: heap_grows_trans [OF heap_grows_set_all])
qed

lemma heap_grows_key_info: "heap_grows h h' \<Longrightarrow> key_info (tables h' t) = key_info (tables h t)"
  by (simp add: heap_grows_def)

lemma heap_grows_primary_key:
  "heap_grows h h' \<Longrightarrow> primary_key (tables h' t) = primary_key (tables h t)"
  by (simp add: heap_grows_def)

lemma key_covered_mono: "heap_grows h h' \<Longrightarrow> key_covered h t \<Longrightarrow> key_covered h' t"
proof -
  assume g: "heap_grows h h'" and c: "key_covered h t"
  have ki: "key_info (tables h' t) = key_info (tables h t)"
    and pk: "primary_key (tables h' t) = primary_key (tables h t)"
    using g by (simp_all add: heap_grows_def)
  show ?thesis
    using c are_key_fields_allowed_mono [OF g]
    unfolding key_covered_def ki pk by blast
qed

lemma keys_loop_None:
  "table x = None \<Longrightarrow>
   check_allowed_unique_keys_loop (x # rest) fe h = check_allowed_unique_keys_loop rest fe h"
  by simp

lemma keys_loop_Some:
  "table x = Some u \<Longrightarrow>
   check_allowed_unique_keys_loop (x # rest) fe h =
     (if \<not> bitmap_is_set_all (tmp_set (tables h u)) \<and> key_covered h u
      then check_allowed_unique_keys_loop rest True (upd_tmp_set bitmap_set_all u h)
      else check_allowed_unique_keys_loop rest fe h)"
  unfolding key_covered_def unique_key_allowed_iff [symmetric]
  by (simp del: unique_key_allowed.simps)

lemma keys_loop_covers:
  "check_allowed_unique_keys_loop tbls fe h = (b, h') \<Longrightarrow> tbl \<in> set tbls \<Longrightarrow>
   table tbl = Some t \<Longrightarrow> key_covered h t \<Longrightarrow> bitmap_is_set_all (tmp_set (tables h' t))"
proof (induction tbls arbitrary: fe h)
  case Nil
  then show ?case by simp
next
  case (Cons x rest)
  show ?case
  proof (cases "table x")
    case None
    then have "tbl \<in> set rest" using Cons.prems(2,3) by auto
    then show ?thesis
      using Cons.IH [OF _ _ Cons.prems(3,4)] Cons.prems(1) None by (simp add: keys_loop_None del: check_allowed_unique_keys_loop.simps)
  next
    case (Some u)
    let ?h1 = "upd_tmp_set bitmap_set_all u h"
    have g1: "heap_grows h ?h1" by (rule heap_grows_set_all)
    show ?thesis
    proof (cases "\<not> bitmap_is_set_all (tmp_set (tables h u)) \<and> key_covered h u")
      case True
      then have run: "check_allowed_unique_keys_loop rest True ?h1 = (b, h')"
        using Cons.prems(1) by (simp add: keys_loop_Some [OF Some] del: check_allowed_unique_keys_loop.simps)
      show ?thesis
      proof (cases "tbl = x")
        case True
        then have "t = u" using Some Cons.prems(3) by simp
        then show ?thesis
          using is_set_all_mono [OF keys_loop_grows [OF run] is_set_all_upd] by simp
      next
        case False
        then have "tbl \<in> set rest" using Cons.prems(2) by simp
        then show ?thesis
          using Cons.IH [OF run _ Cons.prems(3) key_covered_mono [OF g1 Cons.prems(4)]] by simp
      qed
    next
      case False
      then have run: "check_allowed_unique_keys_loop rest fe h = (b, h')"
        using Cons.prems(1)
        by (auto simp add: keys_loop_Some [OF Some] simp del: check_allowed_unique_keys_loop.simps)
      show ?thesis
      proof (cases "tbl = x")
        case True
        then have "t = u" using Some Cons.prems(3) by simp
        then have "bitmap_is_set_all (tmp_set (tables h t))"
          using False Cons.prems(4) by simp
        then show ?thesis
          using is_set_all_mono [OF keys_loop_grows [OF run]] by simp
      next
        case False
        then have "tbl \<in> set rest" using Cons.prems(2) by simp
        then show ?thesis
          using Cons.IH [OF run _ Cons.prems(3,4)] by simp
      qed
    qed
  qed
qed

lemma keys_loop_flag_True:
  "check_allowed_unique_keys_loop tbls True h = (b, h') \<Longrightarrow> b"
proof (induction tbls arbitrary: h)
  case Nil
  then show ?case by simp
next
  case (Cons x rest)
  then show ?case
    by (cases "table x")
       (auto simp add: keys_loop_None keys_loop_Some simp del: check_allowed_unique_keys_loop.simps
             split: if_splits)
qed

lemma keys_loop_flag:
  "check_allowed_unique_keys_loop tbls fe h = (b, h') \<Longrightarrow>
   b = (fe \<or> (\<exists>t. tmp_set (tables h' t) \<noteq> tmp_set (tables h t)))"
proof (induction tbls arbitrary: fe h)
  case Nil
  then show ?case by auto
next
  case (Cons x rest)
  show ?case
  proof (cases "table x")
    case None
    then show ?thesis using Cons.IH Cons.prems by (simp add: keys_loop_None del: check_allowed_unique_keys_loop.simps)
  next
    case (Some u)
    show ?thesis
    proof (cases "\<not> bitmap_is_set_all (tmp_set (tables h u)) \<and> key_covered h u")
      case True
      then have run: "check_allowed_unique_keys_loop rest True (upd_tmp_set bitmap_set_all u h) = (b, h')"
        using Cons.prems(1) by (simp add: keys_loop_Some [OF Some] del: check_allowed_unique_keys_loop.simps)
      have "bitmap_is_set_all (tmp_set (tables h' u))"
        using is_set_all_mono [OF keys_loop_grows [OF run] is_set_all_upd] .
      then have "tmp_set (tables h' u) \<noteq> tmp_set (tables h u)" using True by auto
      then show ?thesis using keys_loop_flag_True [OF run] by auto
    next
      case False
      then have run: "check_allowed_unique_keys_loop rest fe h = (b, h')"
        using Cons.prems(1)
        by (auto simp add: keys_loop_Some [OF Some] simp del: check_allowed_unique_keys_loop.simps)
      then show ?thesis using Cons.IH by simp
    qed
  qed
qed

lemma grows_to_simps:
  "grows_to h p (Ok x) = heap_grows h (p x)"
  "grows_to h p (Raised e y) = heap_grows h y"
  "grows_to h p Undefined = True"
  by (simp_all add: grows_to_def)

lemma obind_simps:
  "obind (Ok x) f = f x"
  "obind (Raised e y) f = Raised e y"
  "obind Undefined f = Undefined"
  by (simp_all add: obind_def)

lemma grows_to_obind:
  assumes "grows_to h p m" and "\<And>x. m = Ok x \<Longrightarrow> grows_to (p x) q (f x)"
  shows "grows_to h q (obind m f)"
proof (cases m)
  case (Ok x)
  then have "heap_grows h (p x)" using assms(1) by (simp add: grows_to_simps)
  moreover have "grows_to (p x) q (f x)" using assms(2) Ok by simp
  ultimately show ?thesis
    using Ok by (cases "f x") (auto simp: grows_to_simps obind_simps intro: heap_grows_trans)
next
  case (Raised e y)
  then show ?thesis using assms(1) by (simp add: grows_to_simps obind_simps)
next
  case Undefined
  then show ?thesis by (simp add: grows_to_simps obind_simps)
qed

lemma grows_to_weaken:
  "heap_grows h0 h \<Longrightarrow> grows_to h p r \<Longrightarrow> grows_to h0 p r"
  by (cases r) (auto simp: grows_to_simps intro: heap_grows_trans)

lemma extract_grows: "grows_to h snd (extract_new_func_dep_field eq dp nd h)"
  unfolding extract_new_func_dep_field_def Let_def
  by (auto simp: grows_to_simps heap_grows_refl heap_grows_set_bit split: option.splits
           intro: heap_grows_trans [OF heap_grows_set_bit heap_grows_set_all])

lemma mat_loop_grows:
  "grows_to h snd (check_allowed_materialized_derived_loop mat kept h)"
proof (induction mat arbitrary: kept h)
  case Nil
  then show ?case by (simp add: grows_to_simps heap_grows_refl)
next
  case (Cons tbl rest)
  show ?case
  proof (cases "table tbl")
    case None
    then show ?thesis by (simp add: grows_to_simps)
  next
    case (Some t)
    then show ?thesis
      using Cons.IH [where kept = "kept @ [tbl]" and h = h]
            grows_to_weaken [OF heap_grows_set_all
              Cons.IH [where kept = kept and h = "upd_tmp_set bitmap_set_all t h"]]
      by simp
  qed
qed

lemma mat_grows: "grows_to h (\<lambda>r. snd (snd r)) (check_allowed_materialized_derived mat h)"
  unfolding check_allowed_materialized_derived_def
  by (auto simp: grows_to_simps heap_grows_refl intro!: grows_to_obind [OF mat_loop_grows])

lemma keys_grows: "heap_grows h (snd (check_allowed_unique_keys sl h))"
  using keys_loop_grows [of "leaf_tables sl" False h]
  by (cases "check_allowed_unique_keys_loop (leaf_tables sl) False h")
     (simp add: check_allowed_unique_keys_def)

lemma gb_loop_grows: "grows_to h snd (collect_gb_fields_loop items gb h)"
proof (induction items arbitrary: gb h)
  case Nil
  then show ?case by (simp add: grows_to_simps heap_grows_refl)
next
  case (Cons it rest)
  show ?case
  proof (cases "type_of it = FIELD_ITEM \<or> (type_of it = REF_ITEM \<and> type_of (real_item it) = FIELD_ITEM)")
    case True
    show ?thesis
    proof (cases "item_field_cast (real_item it)")
      case None
      then show ?thesis using True by (simp add: grows_to_simps)
    next
      case (Some fld)
      then show ?thesis
        using True grows_to_weaken [OF heap_grows_set_bit Cons.IH]
        by simp
    qed
  next
    case False
    then show ?thesis using Cons.IH [where gb = "gb @ [it]" and h = h] by auto
  qed
qed

lemma collect_gb_grows:
  "grows_to h (\<lambda>r. snd (snd r)) (collect_gb_fields sl mat gb h)"
  unfolding collect_gb_fields_def
  by (auto simp: grows_to_simps heap_grows_refl
           intro!: grows_to_obind [OF gb_loop_grows]
                   grows_to_obind [OF grows_to_weaken [OF keys_grows mat_grows]])




lemma step_neither:
  "\<not> fields_allowed h (fields_l e) \<Longrightarrow> \<not> fields_allowed h (fields_r e) \<Longrightarrow>
   deferred_equality_step e ex h = Ok (False, ex, h)"
  by (simp add: deferred_equality_step_def)

lemma step_both:
  "fields_allowed h (fields_l e) \<Longrightarrow> fields_allowed h (fields_r e) \<Longrightarrow>
   deferred_equality_step e ex h = Ok (True, ex, h)"
  by (simp add: deferred_equality_step_def)

lemma step_left:
  "fields_allowed h (fields_l e) \<Longrightarrow> \<not> fields_allowed h (fields_r e) \<Longrightarrow>
   deferred_equality_step e ex h =
     obind (extract_new_func_dep_field (equal_item e) (argument0 (equal_item e)) (argument1 (equal_item e)) h)
       (\<lambda>(b, h'). Ok (True, (b \<or> ex), h'))"
  by (cases "extract_new_func_dep_field (equal_item e) (argument0 (equal_item e)) (argument1 (equal_item e)) h")
     (auto simp: deferred_equality_step_def obind_simps split: if_splits)

lemma step_right:
  "\<not> fields_allowed h (fields_l e) \<Longrightarrow> fields_allowed h (fields_r e) \<Longrightarrow>
   deferred_equality_step e ex h =
     obind (extract_new_func_dep_field (equal_item e) (argument1 (equal_item e)) (argument0 (equal_item e)) h)
       (\<lambda>(b, h'). Ok (True, (b \<or> ex), h'))"
  by (cases "extract_new_func_dep_field (equal_item e) (argument1 (equal_item e)) (argument0 (equal_item e)) h")
     (auto simp: deferred_equality_step_def obind_simps split: if_splits)

lemma step_cases:
  obtains
    (neither) "\<not> fields_allowed h (fields_l e)" "\<not> fields_allowed h (fields_r e)"
  | (both) "fields_allowed h (fields_l e)" "fields_allowed h (fields_r e)"
  | (left) "fields_allowed h (fields_l e)" "\<not> fields_allowed h (fields_r e)"
  | (right) "\<not> fields_allowed h (fields_l e)" "fields_allowed h (fields_r e)"
  by blast

lemma step_grows: "grows_to h (\<lambda>r. snd (snd r)) (deferred_equality_step e ex h)"
proof (cases rule: step_cases [of h e])
  case neither
  then show ?thesis by (simp add: step_neither grows_to_simps heap_grows_refl)
next
  case both
  then show ?thesis by (simp add: step_both grows_to_simps heap_grows_refl)
next
  case left
  then show ?thesis
    by (auto simp: step_left grows_to_simps heap_grows_refl intro!: grows_to_obind [OF extract_grows])
next
  case right
  then show ?thesis
    by (auto simp: step_right grows_to_simps heap_grows_refl intro!: grows_to_obind [OF extract_grows])
qed



lemma pass_Cons:
  "deferred_equalities_pass (e # rest) kept ex h =
     obind (deferred_equality_step e ex h)
       (\<lambda>(removed, ex', h').
          deferred_equalities_pass rest (if removed then kept else kept @ [e]) ex' h')"
  by simp

lemma pass_grows:
  "grows_to h (\<lambda>r. snd (snd r)) (deferred_equalities_pass items kept ex h)"
proof (induction items arbitrary: kept ex h)
  case Nil
  then show ?case by (simp add: grows_to_simps heap_grows_refl)
next
  case (Cons e rest)
  show ?case
    unfolding pass_Cons
    by (rule grows_to_obind [OF step_grows]) (auto intro: Cons.IH)
qed







subsection \<open>The fixed-point loop makes progress\<close>

lemma filter_length_mono:
  "(\<And>x. x \<in> set xs \<Longrightarrow> Q x \<Longrightarrow> P x) \<Longrightarrow> length (filter Q xs) \<le> length (filter P xs)"
  by (induction xs) auto

lemma filter_length_less:
  "(\<And>x. x \<in> set xs \<Longrightarrow> Q x \<Longrightarrow> P x) \<Longrightarrow> y \<in> set xs \<Longrightarrow> P y \<Longrightarrow> \<not> Q y \<Longrightarrow>
   length (filter Q xs) < length (filter P xs)"
proof (induction xs)
  case Nil
  then show ?case by simp
next
  case (Cons x xs)
  have le: "length (filter Q xs) \<le> length (filter P xs)"
    using Cons.prems(1) by (intro filter_length_mono) auto
  show ?case
  proof (cases "y = x")
    case True
    then show ?thesis using le Cons.prems(3,4) by simp
  next
    case False
    then have "length (filter Q xs) < length (filter P xs)"
      using Cons.IH Cons.prems by auto
    then show ?thesis using Cons.prems(1) [of x] by auto
  qed
qed

lemma unresolved_tables_mono:
  assumes "heap_grows h h'"
  shows "unresolved_tables sl h' \<le> unresolved_tables sl h"
  unfolding unresolved_tables_def
  by (rule filter_length_mono) (auto split: option.splits dest: is_set_all_mono [OF assms])

lemma keys_loop_progress:
  "check_allowed_unique_keys_loop tbls fe h = (b, h') \<Longrightarrow> b \<Longrightarrow> \<not> fe \<Longrightarrow>
   \<exists>tbl \<in> set tbls. \<exists>t. table tbl = Some t \<and> \<not> bitmap_is_set_all (tmp_set (tables h t)) \<and>
                          bitmap_is_set_all (tmp_set (tables h' t))"
proof (induction tbls arbitrary: h)
  case Nil
  then show ?case by simp
next
  case (Cons x rest)
  show ?case
  proof (cases "table x")
    case None
    then show ?thesis
      using Cons.IH [of h] Cons.prems
      by (simp add: keys_loop_None del: check_allowed_unique_keys_loop.simps)
  next
    case (Some u)
    show ?thesis
    proof (cases "\<not> bitmap_is_set_all (tmp_set (tables h u)) \<and> key_covered h u")
      case True
      then have run: "check_allowed_unique_keys_loop rest True (upd_tmp_set bitmap_set_all u h) = (b, h')"
        using Cons.prems(1)
        by (simp add: keys_loop_Some [OF Some] del: check_allowed_unique_keys_loop.simps)
      have "bitmap_is_set_all (tmp_set (tables h' u))"
        using is_set_all_mono [OF keys_loop_grows [OF run] is_set_all_upd] .
      then show ?thesis using True Some by auto
    next
      case False
      then have run: "check_allowed_unique_keys_loop rest fe h = (b, h')"
        using Cons.prems(1)
        by (auto simp add: keys_loop_Some [OF Some] simp del: check_allowed_unique_keys_loop.simps)
      then show ?thesis using Cons.IH [OF run] Cons.prems(2,3) by auto
    qed
  qed
qed

lemma keys_loop_same:
  "check_allowed_unique_keys_loop tbls fe h = (False, h') \<Longrightarrow> h' = h"
proof (induction tbls arbitrary: h)
  case Nil
  then show ?case by simp
next
  case (Cons x rest)
  show ?case
  proof (cases "table x")
    case None
    then show ?thesis
      using Cons.IH [of h] Cons.prems
      by (simp add: keys_loop_None del: check_allowed_unique_keys_loop.simps)
  next
    case (Some u)
    show ?thesis
    proof (cases "\<not> bitmap_is_set_all (tmp_set (tables h u)) \<and> key_covered h u")
      case True
      then have "check_allowed_unique_keys_loop rest True (upd_tmp_set bitmap_set_all u h) = (False, h')"
        using Cons.prems(1)
        by (simp add: keys_loop_Some [OF Some] del: check_allowed_unique_keys_loop.simps)
      then show ?thesis using keys_loop_flag_True by blast
    next
      case False
      then have "check_allowed_unique_keys_loop rest fe h = (False, h')"
        using Cons.prems(1)
        by (auto simp add: keys_loop_Some [OF Some] simp del: check_allowed_unique_keys_loop.simps)
      then show ?thesis using Cons.IH by simp
    qed
  qed
qed

lemma keys_no_progress_same:
  "check_allowed_unique_keys sl h = (False, h') \<Longrightarrow> h' = h"
  by (simp add: check_allowed_unique_keys_def keys_loop_same)

lemma keys_progress_less:
  assumes "check_allowed_unique_keys sl h = (True, h')"
  shows "unresolved_tables sl h' < unresolved_tables sl h"
proof -
  have run: "check_allowed_unique_keys_loop (leaf_tables sl) False h = (True, h')"
    using assms by (simp add: check_allowed_unique_keys_def)
  have g: "heap_grows h h'" using keys_loop_grows [OF run] .
  from keys_loop_progress [OF run] obtain tbl t where
    t: "tbl \<in> set (leaf_tables sl)" "table tbl = Some t"
       "\<not> bitmap_is_set_all (tmp_set (tables h t))" "bitmap_is_set_all (tmp_set (tables h' t))"
    by auto
  show ?thesis
    unfolding unresolved_tables_def
    by (rule filter_length_less [where y = tbl])
       (use t in \<open>auto split: option.splits dest: is_set_all_mono [OF g]\<close>)
qed

lemma step_flag:
  "deferred_equality_step e ex h = Ok (removed, ex', h') \<Longrightarrow> ex' = ex \<or> (ex' \<and> removed)"
proof (cases rule: step_cases [of h e])
  case neither
  then show "deferred_equality_step e ex h = Ok (removed, ex', h') \<Longrightarrow> ?thesis"
    by (simp add: step_neither)
next
  case both
  then show "deferred_equality_step e ex h = Ok (removed, ex', h') \<Longrightarrow> ?thesis"
    by (simp add: step_both)
next
  case left
  then show "deferred_equality_step e ex h = Ok (removed, ex', h') \<Longrightarrow> ?thesis"
    by (auto simp: step_left obind_def split: outcome.splits)
next
  case right
  then show "deferred_equality_step e ex h = Ok (removed, ex', h') \<Longrightarrow> ?thesis"
    by (auto simp: step_right obind_def split: outcome.splits)
qed

lemma pass_length:
  "deferred_equalities_pass items kept ex h = Ok (ex', rem, h') \<Longrightarrow>
   length rem \<le> length kept + length items \<and>
   (ex' \<and> \<not> ex \<longrightarrow> length rem < length kept + length items)"
proof (induction items arbitrary: kept ex h)
  case Nil
  then show ?case by auto
next
  case (Cons e rest)
  from Cons.prems obtain removed ex1 h1 where
    st: "deferred_equality_step e ex h = Ok (removed, ex1, h1)" and
    run: "deferred_equalities_pass rest (if removed then kept else kept @ [e]) ex1 h1 =
            Ok (ex', rem, h')"
    unfolding pass_Cons by (auto simp: obind_def split: outcome.splits)
  note ih = Cons.IH [OF run]
  note fl = step_flag [OF st]
  show ?case
  proof (cases removed)
    case True
    then show ?thesis using ih by auto
  next
    case False
    then have "ex1 = ex" using fl by auto
    then show ?thesis using ih False by auto
  qed
qed

lemma round_progress:
  assumes "deferred_round sl items h = Ok (ex', items', h')"
  shows "length items' \<le> length items \<and> unresolved_tables sl h' \<le> unresolved_tables sl h \<and>
         (ex' \<and> items' \<noteq> [] \<longrightarrow>
            length items' < length items \<or> unresolved_tables sl h' < unresolved_tables sl h)"
proof -
  from assms obtain ex1 h1 where
    p: "deferred_equalities_pass items [] False h = Ok (ex1, items', h1)" and
    k: "(if \<not> ex1 \<or> items' = []
         then (case check_allowed_unique_keys sl h1 of
                 (k, h2) \<Rightarrow> Ok ((if k then True else ex1), items', h2))
         else Ok (ex1, items', h1)) = Ok (ex', items', h')"
    unfolding deferred_round_def
    by (auto simp: obind_def split: outcome.splits if_splits prod.splits)
  have len: "length items' \<le> length items" "ex1 \<Longrightarrow> length items' < length items"
    using pass_length [OF p] by auto
  have g1: "heap_grows h h1"
    using pass_grows [of h items "[]" False] p by (simp add: grows_to_simps)
  show ?thesis
  proof (cases "\<not> ex1 \<or> items' = []")
    case True
    obtain kk h2 where kr: "check_allowed_unique_keys sl h1 = (kk, h2)"
      by (cases "check_allowed_unique_keys sl h1")
    then have e: "ex' = (if kk then True else ex1)" "h' = h2" using k True by auto
    have g2: "heap_grows h1 h2" using keys_grows [of h1 sl] kr by simp
    have m: "unresolved_tables sl h' \<le> unresolved_tables sl h"
      using unresolved_tables_mono [OF heap_grows_trans [OF g1 g2]] e by simp
    have "ex' \<and> items' \<noteq> [] \<Longrightarrow> unresolved_tables sl h' < unresolved_tables sl h"
    proof -
      assume a: "ex' \<and> items' \<noteq> []"
      then have kk using True e by (auto split: if_splits)
      then have "unresolved_tables sl h2 < unresolved_tables sl h1"
        using keys_progress_less kr by simp
      then show ?thesis using unresolved_tables_mono [OF g1, of sl] e by simp
    qed
    then show ?thesis using len m by blast
  next
    case False
    then have "ex' = ex1" "h' = h1" using k by auto
    then show ?thesis using len False unresolved_tables_mono [OF g1, of sl] by auto
  qed
qed

lemma deferred_loop_terminates:
  "\<exists>r. deferred_loop sl ex items h = Some r"
proof (induction "length items + unresolved_tables sl h" arbitrary: ex items h rule: less_induct)
  case less
  show ?case
  proof (cases "ex \<and> items \<noteq> []")
    case False
    then show ?thesis by (subst deferred_loop.simps) auto
  next
    case True
    show ?thesis
    proof (cases "deferred_round sl items h")
      case (Ok r)
      obtain ex' items' h' where r: "r = (ex', items', h')" by (cases r) auto
      note pr = round_progress [OF Ok [unfolded r]]
      show ?thesis
      proof (cases "ex' \<and> items' \<noteq> []")
        case c: True
        then have "length items' + unresolved_tables sl h' < length items + unresolved_tables sl h"
          using pr by linarith
        from less [OF this] obtain r' where "deferred_loop sl ex' items' h' = Some r'" by blast
        then show ?thesis using True Ok r by (subst deferred_loop.simps) simp
      next
        case c: False
        then have "deferred_loop sl ex' items' h' = Some (Ok h')"
          by (subst deferred_loop.simps) auto
        then show ?thesis using True Ok r by (subst deferred_loop.simps) simp
      qed
    next
      case (Raised e x)
      then show ?thesis using True by (subst deferred_loop.simps) simp
    next
      case Undefined
      then show ?thesis using True by (subst deferred_loop.simps) simp
    qed
  qed
qed

subsection \<open>Allowed-Sets only grow: the analysis\<close>

lemma heap_grows_allowed: "heap_grows h h' \<Longrightarrow> allowed_sets_grow h h'"
  by (simp add: heap_grows_def allowed_sets_grow_def)

lemma keys_grows_eq: "check_allowed_unique_keys sl h = (k, h') \<Longrightarrow> heap_grows h h'"
  using keys_grows [of h sl] by simp

lemma round_grows: "grows_to h (\<lambda>r. snd (snd r)) (deferred_round sl items h)"
  unfolding deferred_round_def
  by (rule grows_to_obind [OF pass_grows])
     (auto simp: grows_to_simps heap_grows_refl split: prod.splits dest: keys_grows_eq)

lemma deferred_loop_grows:
  "deferred_loop sl ex items h = Some r \<Longrightarrow> grows_to h (\<lambda>x. x) r"
proof (induction "length items + unresolved_tables sl h" arbitrary: ex items h rule: less_induct)
  case less
  show ?case
  proof (cases "ex \<and> items \<noteq> []")
    case False
    then have "r = Ok h" using less.prems by (subst (asm) deferred_loop.simps) auto
    then show ?thesis by (simp add: grows_to_simps heap_grows_refl)
  next
    case True
    show ?thesis
    proof (cases "deferred_round sl items h")
      case (Ok q)
      obtain ex' items' h' where q: "q = (ex', items', h')" by (cases q) auto
      note pr = round_progress [OF Ok [unfolded q]]
      have g: "heap_grows h h'"
        using round_grows [of h sl items] Ok q by (simp add: grows_to_simps)
      have next_run: "deferred_loop sl ex' items' h' = Some r"
        using less.prems True Ok q by (subst (asm) deferred_loop.simps) simp
      show ?thesis
      proof (cases "ex' \<and> items' \<noteq> []")
        case c: True
        then have "length items' + unresolved_tables sl h' < length items + unresolved_tables sl h"
          using pr by linarith
        from less.hyps [OF this next_run] show ?thesis
          using g by (rule grows_to_weaken [rotated])
      next
        case c: False
        then have "r = Ok h'" using next_run by (subst (asm) deferred_loop.simps) auto
        then show ?thesis using g by (simp add: grows_to_simps)
      qed
    next
      case (Raised e x)
      then have "r = Raised e x" using less.prems True by (subst (asm) deferred_loop.simps) simp
      moreover have "heap_grows h x"
        using round_grows [of h sl items] Raised by (simp add: grows_to_simps)
      ultimately show ?thesis by (simp add: grows_to_simps)
    next
      case Undefined
      then have "r = Undefined" using less.prems True by (subst (asm) deferred_loop.simps) simp
      then show ?thesis by (simp add: grows_to_simps)
    qed
  qed
qed

lemma check_equality_grows:
  "grows_to h snd (check_equality_on_new_func_dep caps eq_item sl eq_items h)"
  unfolding check_equality_on_new_func_dep_def Let_def
  by (auto simp: grows_to_simps heap_grows_refl split: prod.splits option.splits
           intro!: grows_to_obind [OF extract_grows])

lemma where_other_grows:
  "grows_to h (\<lambda>r. h) (check_where_other caps sl item item_arg flds h)"
  unfolding check_where_other_def
  by (auto simp: grows_to_simps heap_grows_refl split: prod.splits option.splits)

lemma conjuncts_Cons_eq:
  "check_where_conjuncts caps sl (Item_eq e # rest) item_arg flds n eq_items h =
     obind (check_equality_on_new_func_dep caps e sl eq_items h)
       (\<lambda>(eq_items', h'). check_where_conjuncts caps sl rest item_arg flds (Suc n) eq_items' h')"
  by simp

lemma conjuncts_Cons_other:
  "(\<And>e. item \<noteq> Item_eq e) \<Longrightarrow>
   check_where_conjuncts caps sl (item # rest) item_arg flds n eq_items h =
     obind (check_where_other caps sl item item_arg flds h)
       (\<lambda>(item_arg', flds'). check_where_conjuncts caps sl rest item_arg' flds' n eq_items h)"
  by (cases item) auto

lemma conjuncts_grows:
  "grows_to h (\<lambda>r. snd (snd r)) (check_where_conjuncts caps sl items item_arg flds n eq_items h)"
proof (induction items arbitrary: item_arg flds n eq_items h)
  case Nil
  then show ?case by (simp add: grows_to_simps heap_grows_refl)
next
  case (Cons item rest)
  show ?case
  proof (cases "\<exists>e. item = Item_eq e")
    case True
    then obtain e where e: "item = Item_eq e" by blast
    show ?thesis
      unfolding e conjuncts_Cons_eq
      by (rule grows_to_obind [OF check_equality_grows]) (auto intro: Cons.IH)
  next
    case False
    then have ne: "\<And>e. item \<noteq> Item_eq e" by blast
    show ?thesis
      unfolding conjuncts_Cons_other [OF ne]
      by (rule grows_to_obind [OF where_other_grows]) (auto intro: Cons.IH)
  qed
qed

lemma first_pass_grows:
  "grows_to h (\<lambda>r. snd (snd r)) (check_where_first_pass caps sl cond h)"
proof (cases cond)
  case (Item_eq e)
  then show ?thesis
    unfolding check_where_first_pass_def
    by (auto simp: grows_to_simps heap_grows_refl intro!: grows_to_obind [OF check_equality_grows])
next
  case (Item_cond n th ft args)
  then show ?thesis
    unfolding check_where_first_pass_def
    by (auto simp: grows_to_simps heap_grows_refl conjuncts_grows
             intro!: grows_to_obind [OF where_other_grows])
qed (auto simp: check_where_first_pass_def grows_to_simps heap_grows_refl
          intro!: grows_to_obind [OF where_other_grows])

lemma check_where_grows:
  assumes "check_where_and_get_new_dependencies caps sl mat h = Some r"
  shows "grows_to h (\<lambda>x. x) r"
proof (cases "join_conds sl")
  case None
  then show ?thesis
    using assms by (auto simp: check_where_and_get_new_dependencies_def grows_to_simps heap_grows_refl)
next
  case (Some cond)
  show ?thesis
  proof (cases "check_where_first_pass caps sl cond h")
    case (Ok q)
    obtain n eq_items h1 where q: "q = (n, eq_items, h1)" by (cases q) auto
    have g: "heap_grows h h1"
      using first_pass_grows [of h caps sl cond] Ok q by (simp add: grows_to_simps)
    have "grows_to h1 (\<lambda>x. x) r"
      using assms Some Ok q keys_grows [of h1 sl] deferred_loop_grows [of sl True eq_items h1 r]
      by (auto simp: check_where_and_get_new_dependencies_def grows_to_simps heap_grows_refl
               split: if_splits)
    then show ?thesis using g by (rule grows_to_weaken [rotated])
  next
    case (Raised e x)
    then show ?thesis
      using assms Some first_pass_grows [of h caps sl cond]
      by (auto simp: check_where_and_get_new_dependencies_def grows_to_simps)
  next
    case Undefined
    then show ?thesis
      using assms Some by (auto simp: check_where_and_get_new_dependencies_def grows_to_simps)
  qed
qed

lemma check_where_terminates:
  "\<exists>r. check_where_and_get_new_dependencies caps sl mat h = Some r"
  using deferred_loop_terminates
  by (auto simp: check_where_and_get_new_dependencies_def split: option.splits outcome.splits)

lemma set_all_leaf_grows: "grows_to h (\<lambda>x. x) (set_all_leaf_tables tbls h)"
proof (induction tbls arbitrary: h)
  case Nil
  then show ?case by (simp add: grows_to_simps heap_grows_refl)
next
  case (Cons tbl rest)
  show ?case
  proof (cases "table tbl")
    case None
    then show ?thesis by (simp add: grows_to_simps)
  next
    case (Some t)
    then show ?thesis
      using grows_to_weaken [OF heap_grows_set_all Cons.IH [of "upd_tmp_set bitmap_set_all t h"]]
      by simp
  qed
qed

lemma set_update_grows: "grows_to h (\<lambda>x. x) (set_update_table_fields sl h)"
  unfolding set_update_table_fields_def
  by (auto simp: grows_to_simps heap_grows_refl set_all_leaf_grows split: option.splits)

lemma walk_tables: "tables (walk_set_subquery_ctx ctx it h) = tables h"
  by (simp add: walk_set_subquery_ctx_def)

lemma context_list_tables: "tables (set_subqueries_context_list items h) = tables h"
  by (induction items arbitrary: h) (simp_all add: walk_tables)

lemma set_subqueries_context_tables: "tables (set_subqueries_context sl h) = tables h"
  by (simp add: set_subqueries_context_def Let_def walk_tables context_list_tables
           split: option.splits)

lemma heap_grows_tables: "tables h' = tables h \<Longrightarrow> heap_grows h h'"
  by (simp add: heap_grows_def)

lemma select_list_loop_grows:
  "grows_to h (\<lambda>r. h) (are_select_list_fields_allowed_loop caps sl gb items h)"
  by (induction items)
     (auto simp: grows_to_simps heap_grows_refl split: prod.splits bool.splits option.splits)

lemma select_list_grows:
  "grows_to h (\<lambda>r. h) (are_select_list_fields_allowed caps sl gb h)"
  by (simp add: are_select_list_fields_allowed_def select_list_loop_grows)

lemma having_grows:
  "grows_to h (\<lambda>r. h) (are_having_fields_allowed caps sl hv gb h)"
  by (auto simp: are_having_fields_allowed_def grows_to_simps heap_grows_refl
           split: prod.splits bool.splits option.splits)

lemma validator_grows:
  "grows_to h (\<lambda>x. x)
     (obind (are_select_list_fields_allowed caps sl gb h)
        (\<lambda>ok1. obind (are_having_fields_allowed caps sl hv gb h) (\<lambda>ok2. Ok h)))"
  by (rule grows_to_obind [OF select_list_grows])
     (auto intro!: grows_to_obind [OF having_grows] simp: grows_to_simps heap_grows_refl)

lemma closure_grows:
  assumes "check_func_dep_closure caps sl mat h = Some r"
  shows "grows_to h (\<lambda>x. x) r"
proof (cases "collect_gb_fields sl mat [] h")
  case (Ok q)
  obtain gb mat' h1 where q: "q = (gb, mat', h1)" by (cases q) auto
  have g1: "heap_grows h h1"
    using collect_gb_grows [of h sl mat "[]"] Ok q by (simp add: grows_to_simps)
  obtain w where w: "check_where_and_get_new_dependencies caps sl mat' h1 = Some w"
    using check_where_terminates by blast
  note gw = check_where_grows [OF w]
  have "grows_to h1 (\<lambda>x. x) r"
  proof (cases w)
    case (Ok h2)
    then have "r = obind (are_select_list_fields_allowed caps sl gb h2)
                     (\<lambda>ok1. obind (are_having_fields_allowed caps sl (join_having sl) gb h2)
                               (\<lambda>ok2. Ok h2))"
      using assms \<open>collect_gb_fields sl mat [] h = Ok q\<close> q w
      by (simp add: check_func_dep_closure_def)
    then show ?thesis
      using gw Ok validator_grows [of h2 caps sl gb "join_having sl"]
      by (auto simp: grows_to_simps intro: grows_to_weaken)
  next
    case (Raised e x)
    then have "r = Raised e x"
      using assms \<open>collect_gb_fields sl mat [] h = Ok q\<close> q w
      by (simp add: check_func_dep_closure_def)
    then show ?thesis using gw Raised by simp
  next
    case Undefined
    then have "r = Undefined"
      using assms \<open>collect_gb_fields sl mat [] h = Ok q\<close> q w
      by (simp add: check_func_dep_closure_def)
    then show ?thesis by (simp add: grows_to_simps)
  qed
  then show ?thesis using g1 by (rule grows_to_weaken [rotated])
next
  case (Raised e x)
  then show ?thesis
    using assms collect_gb_grows [of h sl mat "[]"]
    by (auto simp: check_func_dep_closure_def grows_to_simps)
next
  case Undefined
  then show ?thesis using assms by (auto simp: check_func_dep_closure_def grows_to_simps)
qed

lemma closure_terminates: "\<exists>r. check_func_dep_closure caps sl mat h = Some r"
proof (cases "collect_gb_fields sl mat [] h")
  case (Ok q)
  obtain gb mat' h1 where q: "q = (gb, mat', h1)" by (cases q) auto
  obtain w where w: "check_where_and_get_new_dependencies caps sl mat' h1 = Some w"
    using check_where_terminates by blast
  show ?thesis
    using Ok q w by (cases w) (simp_all add: check_func_dep_closure_def)
qed (simp_all add: check_func_dep_closure_def)

lemma cleared_grows:
  assumes "check_func_dep_cleared caps sl mat h = Some r"
  shows "grows_to h (\<lambda>x. x) r"
proof (cases "set_update_table_fields sl h")
  case (Ok h1)
  have g1: "heap_grows h h1"
    using set_update_grows [of h sl] Ok by (simp add: grows_to_simps)
  let ?h2 = "set_subqueries_context sl h1"
  have g2: "heap_grows h1 ?h2"
    by (rule heap_grows_tables) (rule set_subqueries_context_tables)
  have "grows_to ?h2 (\<lambda>x. x) r"
  proof (cases "length (group_list sl) = 0 \<and> having sl = None")
    case True
    show ?thesis
    proof (cases "set_all_leaf_tables (leaf_tables sl) ?h2")
      case o: (Ok h3)
      have g3: "heap_grows ?h2 h3"
        using set_all_leaf_grows [of ?h2 "leaf_tables sl"] o by (simp add: grows_to_simps)
      show ?thesis
      proof (cases "need_check sl")
        case n: True
        then have "check_func_dep_closure caps sl mat h3 = Some r"
          using assms Ok True o by (simp add: check_func_dep_cleared_def Let_def)
        from closure_grows [OF this] show ?thesis using g3 by (rule grows_to_weaken [rotated])
      next
        case n: False
        then have "r = Ok h3"
          using assms Ok True o by (simp add: check_func_dep_cleared_def Let_def)
        then show ?thesis using g3 by (simp add: grows_to_simps)
      qed
    next
      case (Raised e x)
      then show ?thesis
        using assms Ok True set_all_leaf_grows [of ?h2 "leaf_tables sl"]
        by (auto simp: check_func_dep_cleared_def Let_def grows_to_simps)
    next
      case Undefined
      then show ?thesis
        using assms Ok True by (auto simp: check_func_dep_cleared_def Let_def grows_to_simps)
    qed
  next
    case False
    then have "check_func_dep_closure caps sl mat ?h2 = Some r"
      using assms Ok by (auto simp: check_func_dep_cleared_def Let_def)
    from closure_grows [OF this] show ?thesis .
  qed
  then show ?thesis
    using heap_grows_trans [OF g1 g2] by (rule grows_to_weaken [rotated])
next
  case (Raised e x)
  then show ?thesis
    using assms set_update_grows [of h sl]
    by (auto simp: check_func_dep_cleared_def grows_to_simps)
next
  case Undefined
  then show ?thesis using assms by (auto simp: check_func_dep_cleared_def grows_to_simps)
qed

lemma cleared_terminates: "\<exists>r. check_func_dep_cleared caps sl mat h = Some r"
  using closure_terminates
  by (auto simp: check_func_dep_cleared_def Let_def split: outcome.splits)

lemma check_func_dep_terminates: "\<exists>r. check_func_dep caps sl h = Some r"
  using cleared_terminates
  by (auto simp: check_func_dep_def split: prod.splits)

lemma check_func_dep_grows:
  assumes "check_func_dep caps sl h = Some r"
  shows "grows_to
           (if leaf_tables sl = [] \<or> select_number sl = UINT_MAX \<or> select_number sl = INT_MAX
            then h else snd (clear_leaf_tables (leaf_tables sl) [] h))
           (\<lambda>x. x) r"
proof (cases "leaf_tables sl = [] \<or> select_number sl = UINT_MAX \<or> select_number sl = INT_MAX")
  case True
  then have "r = Ok h" using assms by (auto simp: check_func_dep_def)
  then show ?thesis using True by (simp add: grows_to_simps heap_grows_refl)
next
  case False
  obtain mat h0 where cl: "clear_leaf_tables (leaf_tables sl) [] h = (mat, h0)"
    by (cases "clear_leaf_tables (leaf_tables sl) [] h")
  then have "check_func_dep_cleared caps sl mat h0 = Some r"
    using assms False by (simp add: check_func_dep_def)
  from cleared_grows [OF this] show ?thesis using False cl by simp
qed

subsection \<open>The scenario \<^verbatim>\<open>WHERE t.a = t.b AND t.pk = 1\<close>\<close>

lemma scn_first_pass:
  "check_where_first_pass t_caps (t_select [] [] (Some where_a_b_and_pk_1)) where_a_b_and_pk_1
     (t_heap [False, False, False]) =
     Ok (2, [deferred_a_b],
         upd_tmp_set (\<lambda>m. bitmap_set_bit m 0) 0 (t_heap [False, False, False]))"
proof -
  let ?sl = "t_select [] [] (Some where_a_b_and_pk_1)"
  let ?h0 = "t_heap [False, False, False]"
  let ?h1 = "upd_tmp_set (\<lambda>m. bitmap_set_bit m 0) 0 ?h0"
  have e1: "check_equality_on_new_func_dep t_caps eq_a_b ?sl [] ?h0 = Ok ([deferred_a_b], ?h0)"
    by (simp add: check_equality_on_new_func_dep_def eq_a_b_def t_a_def t_b_def t_caps_def
        item_allowed_def Field_excl_func_dep_on_grouping_fields_def t_heap_def t_table_def
        bitmap_is_set_def List.map_filter_def deferred_a_b_def)
  have e2: "check_equality_on_new_func_dep t_caps eq_pk_1 ?sl [deferred_a_b] ?h0 =
              Ok ([deferred_a_b], ?h1)"
    by (simp add: check_equality_on_new_func_dep_def eq_pk_1_def t_pk_def t_caps_def
        item_allowed_def Field_excl_func_dep_on_grouping_fields_def t_heap_def t_table_def
        bitmap_is_set_def List.map_filter_def extract_new_func_dep_field_def obind_simps
        t_leaf_def upd_tmp_set_def)
  show ?thesis
    using e1 e2 by (simp add: check_where_first_pass_def where_a_b_and_pk_1_def obind_simps)
qed

lemma scn_pass_neither:
  "deferred_equalities_pass [deferred_a_b] [] False
     (upd_tmp_set (\<lambda>m. bitmap_set_bit m 0) 0 (t_heap [False, False, False])) =
   Ok (False, [deferred_a_b],
       upd_tmp_set (\<lambda>m. bitmap_set_bit m 0) 0 (t_heap [False, False, False]))"
proof -
  let ?h1 = "upd_tmp_set (\<lambda>m. bitmap_set_bit m 0) 0 (t_heap [False, False, False])"
  have f: "\<not> fields_allowed ?h1 (fields_l deferred_a_b)"
          "\<not> fields_allowed ?h1 (fields_r deferred_a_b)"
    by (simp_all add: fields_allowed_def deferred_a_b_def t_heap_def t_table_def upd_tmp_set_def
        Field_excl_func_dep_on_grouping_fields_def bitmap_is_set_def bitmap_set_bit_def)
  show ?thesis using f by (simp add: step_neither obind_simps)
qed

lemma scn_keys_progress:
  "fst (check_allowed_unique_keys (t_select [] [] (Some where_a_b_and_pk_1))
          (upd_tmp_set (\<lambda>m. bitmap_set_bit m 0) 0 (t_heap [False, False, False])))"
  by (simp add: check_allowed_unique_keys_def t_select_def t_leaf_def t_heap_def t_table_def
      MAX_KEY_def are_key_fields_allowed_def Field_excl_func_dep_on_grouping_fields_def
      bitmap_is_set_def bitmap_is_set_all_def upd_tmp_set_def bitmap_set_bit_def)

lemma scn_round:
  "deferred_round (t_select [] [] (Some where_a_b_and_pk_1)) [deferred_a_b]
     (upd_tmp_set (\<lambda>m. bitmap_set_bit m 0) 0 (t_heap [False, False, False])) =
   Ok (True, [deferred_a_b],
       snd (check_allowed_unique_keys (t_select [] [] (Some where_a_b_and_pk_1))
              (upd_tmp_set (\<lambda>m. bitmap_set_bit m 0) 0 (t_heap [False, False, False]))))"
  unfolding deferred_round_def scn_pass_neither obind_simps
  using scn_keys_progress by (simp add: case_prod_unfold)

subsection \<open>The scenarios of the specification\<close>

lemmas scn_defs = t_select_def t_leaf_def t_heap_def t_table_def t_a_def t_b_def t_pk_def
  t_caps_def item_allowed_def Field_excl_func_dep_on_grouping_fields_def
  bitmap_is_set_def bitmap_set_bit_def bitmap_set_all_def bitmap_clear_all_def
  bitmap_is_set_all_def bitmap_is_clear_all_def upd_tmp_set_def MAX_KEY_def UINT_MAX_def
  INT_MAX_def are_key_fields_allowed_def List.map_filter_def obind_simps a_plus_1_def
  eq_b_a_plus_1_def rand_call_def eq_b_rand_def

lemmas run_defs = check_func_dep_def check_func_dep_cleared_def check_func_dep_closure_def
  set_update_table_fields_def set_subqueries_context_def with_subquery_def need_check_def
  are_select_list_fields_allowed_def are_having_fields_allowed_def
  collect_gb_fields_def check_allowed_materialized_derived_def
  check_where_and_get_new_dependencies_def check_where_first_pass_def
  check_equality_on_new_func_dep_def extract_new_func_dep_field_def
  check_allowed_unique_keys_def my_error_non_grouping_def

text \<open>\<^verbatim>\<open>SELECT a, b FROM t GROUP BY a\<close> fails on \<^verbatim>\<open>b\<close> in the SELECT list.\<close>

lemma scenario_group_by_a:
  "\<exists>h'. check_func_dep t_caps (t_select [t_a] [t_a, t_b] None) (t_heap [True, True, True]) =
          Some (Raised (ER_NON_GROUPING_FIELD_USED ''t.b'' ''SELECT list'') h') \<and>
        tmp_set (tables h' 0) = [False, True, False]"
  by (simp add: run_defs scn_defs)

text \<open>\<^verbatim>\<open>SELECT a, b FROM t WHERE b = a + 1 GROUP BY a\<close> passes.\<close>

lemma scenario_where_b_a_plus_1:
  "\<exists>h'. check_func_dep t_caps (t_select [t_a] [t_a, t_b] (Some (Item_eq eq_b_a_plus_1)))
          (t_heap [True, True, True]) = Some (Ok h') \<and>
        tmp_set (tables h' 0) = [False, True, True]"
  by (simp add: run_defs scn_defs)

text \<open>\<^verbatim>\<open>SELECT pk, b FROM t GROUP BY pk\<close> passes.\<close>

lemma scenario_group_by_pk:
  "\<exists>h'. check_func_dep t_caps (t_select [t_pk] [t_pk, t_b] None) (t_heap [False, False, False]) =
          Some (Ok h') \<and>
        tmp_set (tables h' 0) = [True, True, True]"
  by (simp add: run_defs scn_defs)

text \<open>\<^verbatim>\<open>SELECT b FROM t WHERE b = RAND() GROUP BY a\<close> fails on \<^verbatim>\<open>b\<close> in the SELECT list.\<close>

lemma scenario_where_b_rand:
  "\<exists>h'. check_func_dep t_caps (t_select [t_a] [t_b] (Some (Item_eq eq_b_rand)))
          (t_heap [False, False, False]) =
          Some (Raised (ER_NON_GROUPING_FIELD_USED ''t.b'' ''SELECT list'') h') \<and>
        tmp_set (tables h' 0) = [False, True, False]"
  by (simp add: run_defs scn_defs)

text \<open>
  \<^verbatim>\<open>SELECT a, b FROM t WHERE b = pk AND pk = a GROUP BY a\<close> passes: \<^verbatim>\<open>b = pk\<close> is
  deferred, \<^verbatim>\<open>pk\<close> is extracted from \<^verbatim>\<open>pk = a\<close>, and the fixed-point loop extracts
  \<^verbatim>\<open>b\<close> from the deferred equality.
\<close>

lemma scenario_deferred_chain:
  "\<exists>h'. check_func_dep t_caps (t_select [t_a] [t_a, t_b] (Some where_b_pk_and_pk_a))
          (t_heap [False, False, False]) = Some (Ok h') \<and>
        tmp_set (tables h' 0) = [True, True, True]"
  by (simp add: run_defs scn_defs eq_b_pk_def eq_pk_a_def where_b_pk_and_pk_a_def
      deferred_loop.simps deferred_round_def deferred_equality_step_def fields_allowed_def)

subsection \<open>The errors the analysis raises\<close>

lemma known_clause_simps:
  "known_clause (Ok y)"
  "known_clause (Raised e x) = clause_ok e"
  "known_clause Undefined"
  by (simp_all add: known_clause_def)

lemma known_clause_my_error:
  "clause_ok (my_error_non_grouping a ''SELECT list'')"
  "clause_ok (my_error_non_grouping a ''HAVING clause'')"
  "clause_ok (my_error_non_grouping a ''WHERE clause'')"
  by (simp_all add: clause_ok_def my_error_non_grouping_def)

lemma known_clause_obind:
  assumes "known_clause m" and "\<And>y. m = Ok y \<Longrightarrow> known_clause (f y)"
  shows "known_clause (obind m f)"
  using assms by (cases m) (simp_all add: obind_simps known_clause_def)

lemma extract_known: "known_clause (extract_new_func_dep_field eq dp nd h)"
  by (simp add: extract_new_func_dep_field_def Let_def known_clause_def split: option.splits)

lemma mat_loop_known: "known_clause (check_allowed_materialized_derived_loop mat kept h)"
  by (induction mat arbitrary: kept h) (simp_all add: known_clause_def split: option.splits)

lemma mat_known: "known_clause (check_allowed_materialized_derived mat h)"
  unfolding check_allowed_materialized_derived_def
  by (auto simp: known_clause_simps intro!: known_clause_obind mat_loop_known)

lemma gb_loop_known: "known_clause (collect_gb_fields_loop items gb h)"
  by (induction items arbitrary: gb h) (simp_all add: known_clause_def split: option.splits)

lemma collect_gb_known: "known_clause (collect_gb_fields sl mat gb h)"
  unfolding collect_gb_fields_def
  by (auto simp: known_clause_simps intro!: known_clause_obind gb_loop_known mat_known)

lemma step_known: "known_clause (deferred_equality_step e ex h)"
  unfolding deferred_equality_step_def Let_def
  by (auto simp: known_clause_simps intro!: known_clause_obind extract_known)

lemma pass_known: "known_clause (deferred_equalities_pass items kept ex h)"
proof (induction items arbitrary: kept ex h)
  case Nil
  then show ?case by (simp add: known_clause_simps)
next
  case (Cons e rest)
  show ?case
    unfolding pass_Cons
    by (rule known_clause_obind [OF step_known]) (auto intro: Cons.IH)
qed

lemma round_known: "known_clause (deferred_round sl items h)"
  unfolding deferred_round_def
  by (rule known_clause_obind [OF pass_known])
     (auto simp: known_clause_simps split: prod.splits)

lemma deferred_loop_known:
  "deferred_loop sl ex items h = Some r \<Longrightarrow> known_clause r"
proof (induction "length items + unresolved_tables sl h" arbitrary: ex items h rule: less_induct)
  case less
  show ?case
  proof (cases "ex \<and> items \<noteq> []")
    case False
    then have "r = Ok h" using less.prems by (subst (asm) deferred_loop.simps) auto
    then show ?thesis by (simp add: known_clause_simps)
  next
    case True
    show ?thesis
    proof (cases "deferred_round sl items h")
      case (Ok q)
      obtain ex' items' h' where q: "q = (ex', items', h')" by (cases q) auto
      note pr = round_progress [OF Ok [unfolded q]]
      have next_run: "deferred_loop sl ex' items' h' = Some r"
        using less.prems True Ok q by (subst (asm) deferred_loop.simps) simp
      show ?thesis
      proof (cases "ex' \<and> items' \<noteq> []")
        case c: True
        then have "length items' + unresolved_tables sl h' < length items + unresolved_tables sl h"
          using pr by linarith
        from less.hyps [OF this next_run] show ?thesis .
      next
        case c: False
        then have "r = Ok h'" using next_run by (subst (asm) deferred_loop.simps) auto
        then show ?thesis by (simp add: known_clause_simps)
      qed
    next
      case (Raised e x)
      then have "r = Raised e x" using less.prems True by (subst (asm) deferred_loop.simps) simp
      then show ?thesis using round_known [of sl items h] Raised by (simp add: known_clause_simps)
    next
      case Undefined
      then have "r = Undefined" using less.prems True by (subst (asm) deferred_loop.simps) simp
      then show ?thesis by (simp add: known_clause_simps)
    qed
  qed
qed

lemma check_equality_known:
  "known_clause (check_equality_on_new_func_dep caps eq_item sl eq_items h)"
  unfolding check_equality_on_new_func_dep_def Let_def
  by (auto simp: known_clause_simps known_clause_my_error split: prod.splits option.splits
           intro!: known_clause_obind extract_known)

lemma where_other_known:
  "known_clause (check_where_other caps sl item item_arg flds h)"
  unfolding check_where_other_def
  by (auto simp: known_clause_simps known_clause_my_error split: prod.splits option.splits)

lemma conjuncts_known:
  "known_clause (check_where_conjuncts caps sl items item_arg flds n eq_items h)"
proof (induction items arbitrary: item_arg flds n eq_items h)
  case Nil
  then show ?case by (simp add: known_clause_simps)
next
  case (Cons item rest)
  show ?case
  proof (cases "\<exists>e. item = Item_eq e")
    case True
    then obtain e where e: "item = Item_eq e" by blast
    show ?thesis
      unfolding e conjuncts_Cons_eq
      by (rule known_clause_obind [OF check_equality_known]) (auto intro: Cons.IH)
  next
    case False
    then have ne: "\<And>e. item \<noteq> Item_eq e" by blast
    show ?thesis
      unfolding conjuncts_Cons_other [OF ne]
      by (rule known_clause_obind [OF where_other_known]) (auto intro: Cons.IH)
  qed
qed

lemma first_pass_known:
  "known_clause (check_where_first_pass caps sl cond h)"
proof (cases cond)
  case (Item_eq e)
  then show ?thesis
    unfolding check_where_first_pass_def
    by (auto simp: known_clause_simps intro!: known_clause_obind check_equality_known)
next
  case (Item_cond n th ft args)
  then show ?thesis
    unfolding check_where_first_pass_def
    by (auto simp: known_clause_simps conjuncts_known
             intro!: known_clause_obind where_other_known)
qed (auto simp: check_where_first_pass_def known_clause_simps
          intro!: known_clause_obind where_other_known)

lemma check_where_known:
  assumes "check_where_and_get_new_dependencies caps sl mat h = Some r"
  shows "known_clause r"
proof (cases "join_conds sl")
  case None
  then show ?thesis
    using assms by (auto simp: check_where_and_get_new_dependencies_def known_clause_simps)
next
  case (Some cond)
  show ?thesis
  proof (cases "check_where_first_pass caps sl cond h")
    case (Ok q)
    obtain n eq_items h1 where q: "q = (n, eq_items, h1)" by (cases q) auto
    show ?thesis
      using assms Some Ok q deferred_loop_known [of sl True eq_items h1 r]
      by (auto simp: check_where_and_get_new_dependencies_def known_clause_simps
               split: if_splits)
  next
    case (Raised e x)
    then show ?thesis
      using assms Some first_pass_known [of caps sl cond h]
      by (auto simp: check_where_and_get_new_dependencies_def known_clause_simps)
  next
    case Undefined
    then show ?thesis
      using assms Some by (auto simp: check_where_and_get_new_dependencies_def known_clause_simps)
  qed
qed

lemma set_all_leaf_known: "known_clause (set_all_leaf_tables tbls h)"
  by (induction tbls arbitrary: h) (simp_all add: known_clause_def split: option.splits)

lemma set_update_known: "known_clause (set_update_table_fields sl h)"
  unfolding set_update_table_fields_def
  by (auto simp: known_clause_simps set_all_leaf_known split: option.splits)

lemma select_list_loop_known:
  "known_clause (are_select_list_fields_allowed_loop caps sl gb items h)"
  by (induction items)
     (auto simp: known_clause_simps known_clause_my_error
           split: prod.splits bool.splits option.splits)

lemma select_list_known:
  "known_clause (are_select_list_fields_allowed caps sl gb h)"
  by (simp add: are_select_list_fields_allowed_def select_list_loop_known)

lemma having_known:
  "known_clause (are_having_fields_allowed caps sl hv gb h)"
  by (auto simp: are_having_fields_allowed_def known_clause_simps known_clause_my_error
           split: prod.splits bool.splits option.splits)

lemma closure_known:
  assumes "check_func_dep_closure caps sl mat h = Some r"
  shows "known_clause r"
proof (cases "collect_gb_fields sl mat [] h")
  case (Ok q)
  obtain gb mat' h1 where q: "q = (gb, mat', h1)" by (cases q) auto
  obtain w where w: "check_where_and_get_new_dependencies caps sl mat' h1 = Some w"
    using check_where_terminates by blast
  note kw = check_where_known [OF w]
  show ?thesis
  proof (cases w)
    case o: (Ok h2)
    then have "r = obind (are_select_list_fields_allowed caps sl gb h2)
                     (\<lambda>ok1. obind (are_having_fields_allowed caps sl (join_having sl) gb h2)
                               (\<lambda>ok2. Ok h2))"
      using assms Ok q w by (simp add: check_func_dep_closure_def)
    then show ?thesis
      by (auto simp: known_clause_simps
               intro!: known_clause_obind select_list_known having_known)
  next
    case (Raised e x)
    then have "r = Raised e x"
      using assms Ok q w by (simp add: check_func_dep_closure_def)
    then show ?thesis using kw Raised by (simp add: known_clause_simps)
  next
    case Undefined
    then have "r = Undefined"
      using assms Ok q w by (simp add: check_func_dep_closure_def)
    then show ?thesis by (simp add: known_clause_simps)
  qed
next
  case (Raised e x)
  then show ?thesis
    using assms collect_gb_known [of sl mat "[]" h]
    by (auto simp: check_func_dep_closure_def known_clause_simps)
next
  case Undefined
  then show ?thesis using assms by (auto simp: check_func_dep_closure_def known_clause_simps)
qed

lemma cleared_known:
  assumes "check_func_dep_cleared caps sl mat h = Some r"
  shows "known_clause r"
proof (cases "set_update_table_fields sl h")
  case (Ok h1)
  let ?h2 = "set_subqueries_context sl h1"
  show ?thesis
  proof (cases "length (group_list sl) = 0 \<and> having sl = None")
    case True
    show ?thesis
    proof (cases "set_all_leaf_tables (leaf_tables sl) ?h2")
      case o: (Ok h3)
      show ?thesis
      proof (cases "need_check sl")
        case n: True
        then have "check_func_dep_closure caps sl mat h3 = Some r"
          using assms Ok True o by (simp add: check_func_dep_cleared_def Let_def)
        from closure_known [OF this] show ?thesis .
      next
        case n: False
        then have "r = Ok h3"
          using assms Ok True o by (simp add: check_func_dep_cleared_def Let_def)
        then show ?thesis by (simp add: known_clause_simps)
      qed
    next
      case (Raised e x)
      then show ?thesis
        using assms Ok True set_all_leaf_known [of "leaf_tables sl" ?h2]
        by (auto simp: check_func_dep_cleared_def Let_def known_clause_simps)
    next
      case Undefined
      then show ?thesis
        using assms Ok True by (auto simp: check_func_dep_cleared_def Let_def known_clause_simps)
    qed
  next
    case False
    then have "check_func_dep_closure caps sl mat ?h2 = Some r"
      using assms Ok by (auto simp: check_func_dep_cleared_def Let_def)
    from closure_known [OF this] show ?thesis .
  qed
next
  case (Raised e x)
  then show ?thesis
    using assms set_update_known [of sl h]
    by (auto simp: check_func_dep_cleared_def known_clause_simps)
next
  case Undefined
  then show ?thesis using assms by (auto simp: check_func_dep_cleared_def known_clause_simps)
qed

lemma check_func_dep_known:
  "check_func_dep caps sl h = Some r \<Longrightarrow> known_clause r"
  using cleared_known
  by (auto simp: check_func_dep_def known_clause_simps split: prod.splits if_splits)

lemma select_list_first_violation:
  "\<forall>p \<in> set pre. fst (excl_func_dep_on_grouping_fields caps h sl gb p None) \<Longrightarrow>
   excl_func_dep_on_grouping_fields caps h sl gb item None = (False, Some a) \<Longrightarrow>
   are_select_list_fields_allowed_loop caps sl gb (pre @ item # post) h =
     Raised (my_error_non_grouping a ''SELECT list'') h"
proof (induction pre)
  case Nil
  then show ?case by simp
next
  case (Cons p pre)
  then show ?case
    by (cases "excl_func_dep_on_grouping_fields caps h sl gb p None") auto
qed

lemma select_list_all_pass:
  "\<forall>p \<in> set items. fst (excl_func_dep_on_grouping_fields caps h sl gb p None) \<Longrightarrow>
   are_select_list_fields_allowed_loop caps sl gb items h = Ok True"
proof (induction items)
  case Nil
  then show ?case by simp
next
  case (Cons p items)
  then show ?case
    by (cases "excl_func_dep_on_grouping_fields caps h sl gb p None") auto
qed

lemma not_equality_item:
  "\<not> (type_of item = FUNC_ITEM \<and> functype item = EQ_FUNC) \<Longrightarrow> item \<noteq> Item_eq e"
  by (cases item) auto

lemma check_func_dep_reach:
  "leaf_tables sl \<noteq> [] \<Longrightarrow> select_number sl \<noteq> UINT_MAX \<Longrightarrow> select_number sl \<noteq> INT_MAX \<Longrightarrow>
   clear_leaf_tables (leaf_tables sl) [] h = (mat, hz) \<Longrightarrow>
   set_update_table_fields sl hz = Ok hu \<Longrightarrow>
   (if group_list sl = [] \<and> having sl = None
    then need_check sl \<and>
         set_all_leaf_tables (leaf_tables sl) (set_subqueries_context sl hu) = Ok hq
    else hq = set_subqueries_context sl hu) \<Longrightarrow>
   check_func_dep caps sl h = check_func_dep_closure caps sl mat hq"
  by (auto simp: check_func_dep_def check_func_dep_cleared_def Let_def split: if_splits)

lemma closure_where_raised:
  "collect_gb_fields sl mat [] hq = Ok (gb, mat', hc) \<Longrightarrow>
   check_where_and_get_new_dependencies caps sl mat' hc = Some (Raised e x) \<Longrightarrow>
   check_func_dep_closure caps sl mat hq = Some (Raised e x)"
  by (simp add: check_func_dep_closure_def)

lemma closure_select_raised:
  "collect_gb_fields sl mat [] hq = Ok (gb, mat', hc) \<Longrightarrow>
   check_where_and_get_new_dependencies caps sl mat' hc = Some (Ok hw) \<Longrightarrow>
   item_list sl = pre @ item # post \<Longrightarrow>
   \<forall>p \<in> set pre. fst (excl_func_dep_on_grouping_fields caps hw sl gb p None) \<Longrightarrow>
   excl_func_dep_on_grouping_fields caps hw sl gb item None = (False, Some a) \<Longrightarrow>
   check_func_dep_closure caps sl mat hq =
     Some (Raised (ER_NON_GROUPING_FIELD_USED (full_name (real_item a)) ''SELECT list'') hw)"
  using select_list_first_violation [of pre caps hw sl gb item a post]
  by (simp add: check_func_dep_closure_def obind_simps are_select_list_fields_allowed_def
      my_error_non_grouping_def)

lemma closure_having_raised:
  "collect_gb_fields sl mat [] hq = Ok (gb, mat', hc) \<Longrightarrow>
   check_where_and_get_new_dependencies caps sl mat' hc = Some (Ok hw) \<Longrightarrow>
   \<forall>p \<in> set (item_list sl). fst (excl_func_dep_on_grouping_fields caps hw sl gb p None) \<Longrightarrow>
   join_having sl = Some hv \<Longrightarrow>
   excl_func_dep_on_grouping_fields caps hw sl gb hv None = (False, Some a) \<Longrightarrow>
   check_func_dep_closure caps sl mat hq =
     Some (Raised (ER_NON_GROUPING_FIELD_USED (full_name (real_item a)) ''HAVING clause'') hw)"
  using select_list_all_pass [of "item_list sl" caps hw sl gb]
  by (simp add: check_func_dep_closure_def obind_simps are_select_list_fields_allowed_def
      are_having_fields_allowed_def my_error_non_grouping_def)

lemma closure_passes:
  "collect_gb_fields sl mat [] hq = Ok (gb, mat', hc) \<Longrightarrow>
   check_where_and_get_new_dependencies caps sl mat' hc = Some (Ok hw) \<Longrightarrow>
   \<forall>p \<in> set (item_list sl). fst (excl_func_dep_on_grouping_fields caps hw sl gb p None) \<Longrightarrow>
   (case join_having sl of
      None \<Rightarrow> True
    | Some hv \<Rightarrow> fst (excl_func_dep_on_grouping_fields caps hw sl gb hv None)) \<Longrightarrow>
   check_func_dep_closure caps sl mat hq = Some (Ok hw)"
  using select_list_all_pass [of "item_list sl" caps hw sl gb]
  by (auto simp: check_func_dep_closure_def obind_simps are_select_list_fields_allowed_def
      are_having_fields_allowed_def split: option.splits prod.splits bool.splits)

lemma where_other_raised:
  "join_conds sl = Some cond \<Longrightarrow>
   \<not> (type_of cond = COND_ITEM \<and> functype cond = COND_AND_FUNC) \<Longrightarrow>
   \<not> (type_of cond = FUNC_ITEM \<and> functype cond = EQ_FUNC) \<Longrightarrow>
   excl_func_dep_from_equalities caps hc sl cond None [] = (False, Some a, flds) \<Longrightarrow>
   check_where_and_get_new_dependencies caps sl mat hc =
     Some (Raised (ER_NON_GROUPING_FIELD_USED (full_name (real_item a)) ''WHERE clause'') hc)"
  by (cases cond)
     (auto simp: check_where_and_get_new_dependencies_def check_where_first_pass_def
        check_where_other_def obind_simps my_error_non_grouping_def)

lemma where_conjunct_raised:
  "\<not> (type_of item = FUNC_ITEM \<and> functype item = EQ_FUNC) \<Longrightarrow>
   excl_func_dep_from_equalities caps hc sl item item_arg flds = (False, Some a, flds') \<Longrightarrow>
   check_where_conjuncts caps sl (item # post) item_arg flds n eq_items hc =
     Raised (ER_NON_GROUPING_FIELD_USED (full_name (real_item a)) ''WHERE clause'') hc"
  by (cases item) (auto simp: check_where_other_def obind_simps my_error_non_grouping_def)

lemma where_equality_raised:
  "join_conds sl = Some (Item_eq eq_item) \<Longrightarrow>
   \<not> ((type_of (argument0 eq_item) = FUNC_ITEM \<and> \<not> is_deterministic (argument0 eq_item)) \<or>
       (type_of (argument1 eq_item) = FUNC_ITEM \<and> \<not> is_deterministic (argument1 eq_item))) \<Longrightarrow>
   excl_func_dep_from_equalities caps hc sl (argument0 eq_item) None [] = (False, Some a, []) \<Longrightarrow>
   check_where_and_get_new_dependencies caps sl mat hc =
     Some (Raised (ER_NON_GROUPING_FIELD_USED (full_name (real_item a)) ''WHERE clause'') hc)"
  by (simp add: check_where_and_get_new_dependencies_def check_where_first_pass_def
      check_equality_on_new_func_dep_def Let_def obind_simps my_error_non_grouping_def)

subsection \<open>Marking every column of the leaf tables\<close>

lemma set_all_leaf_defined:
  "\<forall>tbl \<in> set tbls. table tbl \<noteq> None \<Longrightarrow> \<exists>h'. set_all_leaf_tables tbls h = Ok h'"
  by (induction tbls arbitrary: h) auto

lemma set_all_leaf_full:
  "set_all_leaf_tables tbls h = Ok h' \<Longrightarrow> tbl \<in> set tbls \<Longrightarrow> table tbl = Some t \<Longrightarrow>
   bitmap_is_set_all (tmp_set (tables h' t))"
proof (induction tbls arbitrary: h)
  case Nil
  then show ?case by simp
next
  case (Cons x rest)
  from Cons.prems(1) obtain u where u: "table x = Some u"
    and run: "set_all_leaf_tables rest (upd_tmp_set bitmap_set_all u h) = Ok h'"
    by (cases "table x") auto
  have g: "heap_grows (upd_tmp_set bitmap_set_all u h) h'"
    using set_all_leaf_grows [of "upd_tmp_set bitmap_set_all u h" rest] run
    by (simp add: grows_to_simps)
  show ?case
  proof (cases "tbl = x")
    case True
    then have "t = u" using u Cons.prems(3) by simp
    then show ?thesis using is_set_all_mono [OF g is_set_all_upd] by simp
  next
    case False
    then have "tbl \<in> set rest" using Cons.prems(2) by simp
    from Cons.IH [OF run this Cons.prems(3)] show ?thesis .
  qed
qed

lemma set_update_defined:
  "master_unit_item sl \<longrightarrow>
   (case outer_select sl of
      None \<Rightarrow> True
    | Some outer \<Rightarrow>
        outer_join outer \<or> (\<forall>tbl \<in> set (outer_leaf_tables outer). table tbl \<noteq> None)) \<Longrightarrow>
   \<exists>h'. set_update_table_fields sl h = Ok h'"
  using set_all_leaf_defined
  by (auto simp: set_update_table_fields_def split: option.splits)

lemma set_all_leaf_undefined:
  "tbl \<in> set tbls \<Longrightarrow> table tbl = None \<Longrightarrow> set_all_leaf_tables tbls h = Undefined"
proof (induction tbls arbitrary: h)
  case Nil
  then show ?case by simp
next
  case (Cons x rest)
  then show ?case by (cases "table x") auto
qed

lemma set_all_leaf_not_raised: "set_all_leaf_tables tbls h \<noteq> Raised e x"
proof (induction tbls arbitrary: h)
  case Nil
  then show ?case by simp
next
  case (Cons y rest)
  then show ?case by (cases "table y") auto
qed

lemma set_update_not_raised: "set_update_table_fields sl h \<noteq> Raised e x"
  by (auto simp: set_update_table_fields_def set_all_leaf_not_raised split: option.splits)

text \<open>
  The trivial pass on a block all of whose leaf tables are opened. Take a query block
  that is not an internal placeholder, with an empty GROUP BY list and no HAVING clause,
  every leaf table of which has its table object; when the block is the subquery of an
  item and the block around it has no join (the UPDATE case), the leaf tables of that
  block have theirs too. If the block around it, when there is one, is no aggregating
  join, \<open>check_func_dep\<close> returns success whatever the SELECT list, the WHERE clause and
  the expression capabilities are, and every column of every leaf table is allowed in
  the store it returns. If the block has a leaf table and sits under an aggregating
  join, the analysis goes on from a store in which every column of every leaf table is
  allowed.
\<close>

lemma trivial_pass_opened:
  assumes "group_list sl = []" and "having sl = None"
    and "select_number sl \<noteq> UINT_MAX" and "select_number sl \<noteq> INT_MAX"
    and "\<forall>tbl \<in> set (leaf_tables sl). table tbl \<noteq> None"
    and "master_unit_item sl \<longrightarrow>
         (case outer_select sl of
            None \<Rightarrow> True
          | Some outer \<Rightarrow>
              outer_join outer \<or> (\<forall>tbl \<in> set (outer_leaf_tables outer). table tbl \<noteq> None))"
  shows "((\<forall>outer. outer_select sl = Some outer \<longrightarrow> \<not> outer_join outer) \<longrightarrow>
            (\<exists>h'. check_func_dep caps sl h = Some (Ok h') \<and>
                  (\<forall>tbl \<in> set (leaf_tables sl). \<forall>t. table tbl = Some t \<longrightarrow>
                     bitmap_is_set_all (tmp_set (tables h' t))))) \<and>
         (leaf_tables sl \<noteq> [] \<and> (\<exists>outer. outer_select sl = Some outer \<and> outer_join outer) \<longrightarrow>
            (\<exists>mat_derived h3.
               check_func_dep caps sl h = check_func_dep_closure caps sl mat_derived h3 \<and>
               (\<forall>tbl \<in> set (leaf_tables sl). \<forall>t. table tbl = Some t \<longrightarrow>
                  bitmap_is_set_all (tmp_set (tables h3 t)))))"
proof -
  obtain mat h0 where cl: "clear_leaf_tables (leaf_tables sl) [] h = (mat, h0)"
    by (cases "clear_leaf_tables (leaf_tables sl) [] h")
  obtain h1 where up: "set_update_table_fields sl h0 = Ok h1"
    using set_update_defined [OF assms(6)] by blast
  let ?h2 = "set_subqueries_context sl h1"
  obtain h3 where sa: "set_all_leaf_tables (leaf_tables sl) ?h2 = Ok h3"
    using set_all_leaf_defined [OF assms(5)] by blast
  have full: "\<forall>tbl \<in> set (leaf_tables sl). \<forall>t. table tbl = Some t \<longrightarrow>
                bitmap_is_set_all (tmp_set (tables h3 t))"
    using set_all_leaf_full [OF sa] by blast
  have cleared: "check_func_dep_cleared caps sl mat h0 =
                   (if \<not> need_check sl then Some (Ok h3)
                    else check_func_dep_closure caps sl mat h3)"
    using assms(1,2) up sa by (simp add: check_func_dep_cleared_def Let_def)
  have nc: "need_check sl = (\<exists>outer. outer_select sl = Some outer \<and> outer_join outer)"
    using assms(1,2) by (auto simp: need_check_def split: option.splits)
  show ?thesis
  proof (intro conjI impI)
    assume a: "\<forall>outer. outer_select sl = Some outer \<longrightarrow> \<not> outer_join outer"
    show "\<exists>h'. check_func_dep caps sl h = Some (Ok h') \<and>
                (\<forall>tbl \<in> set (leaf_tables sl). \<forall>t. table tbl = Some t \<longrightarrow>
                   bitmap_is_set_all (tmp_set (tables h' t)))"
    proof (cases "leaf_tables sl = []")
      case True
      then show ?thesis by (simp add: check_func_dep_def)
    next
      case False
      then have "check_func_dep caps sl h = Some (Ok h3)"
        using assms(3,4) cl cleared nc a by (simp add: check_func_dep_def)
      then show ?thesis using full by blast
    qed
  next
    assume a: "leaf_tables sl \<noteq> [] \<and> (\<exists>outer. outer_select sl = Some outer \<and> outer_join outer)"
    then have "check_func_dep caps sl h = check_func_dep_closure caps sl mat h3"
      using assms(3,4) cl cleared nc by (simp add: check_func_dep_def)
    then show "\<exists>mat_derived h3.
               check_func_dep caps sl h = check_func_dep_closure caps sl mat_derived h3 \<and>
               (\<forall>tbl \<in> set (leaf_tables sl). \<forall>t. table tbl = Some t \<longrightarrow>
                  bitmap_is_set_all (tmp_set (tables h3 t)))"
      using full by blast
  qed
qed

text \<open>
  A placeholder block, like a block without leaf tables, returns success with the store
  untouched.
\<close>

lemma placeholder_block_untouched:
  "select_number sl = UINT_MAX \<or> select_number sl = INT_MAX \<or> leaf_tables sl = [] \<Longrightarrow>
   check_func_dep caps sl h = Some (Ok h)"
  by (auto simp: check_func_dep_def)

subsection \<open>The Group-By Collector\<close>

lemma column_reference_iff:
  "(type_of it = FIELD_ITEM \<or> (type_of it = REF_ITEM \<and> type_of (real_item it) = FIELD_ITEM)) =
   (type_of (real_item it) = FIELD_ITEM)"
  by (cases it) simp_all

lemma item_field_cast_type:
  "(type_of it = FIELD_ITEM) = (\<exists>fld. item_field_cast it = Some fld)"
  by (cases it) simp_all

lemma gb_loop_Cons:
  "collect_gb_fields_loop (it # rest) gb h =
     (case item_field_cast (real_item it) of
        Some fld \<Rightarrow>
          collect_gb_fields_loop rest gb
            (upd_tmp_set (\<lambda>m. bitmap_set_bit m (field_index fld)) (field_table fld) h)
      | None \<Rightarrow> collect_gb_fields_loop rest (gb @ [it]) h)"
proof (cases "type_of (real_item it) = FIELD_ITEM")
  case True
  then obtain fld where "item_field_cast (real_item it) = Some fld"
    using item_field_cast_type by blast
  then show ?thesis using True column_reference_iff [of it] by simp
next
  case False
  then have "item_field_cast (real_item it) = None"
    using item_field_cast_type [of "real_item it"] by (cases "item_field_cast (real_item it)") auto
  then show ?thesis using False column_reference_iff [of it] by simp
qed

lemma field_set_after_bit:
  "field_index fld < length (tmp_set (tables h (field_table fld))) \<Longrightarrow>
   Field_excl_func_dep_on_grouping_fields
     (upd_tmp_set (\<lambda>m. bitmap_set_bit m (field_index fld)) (field_table fld) h) fld"
  by (simp add: Field_excl_func_dep_on_grouping_fields_def upd_tmp_set_def bitmap_set_bit_def
      bitmap_is_set_def)

lemma heap_grows_length:
  "heap_grows h h' \<Longrightarrow> length (tmp_set (tables h' t)) = length (tmp_set (tables h t))"
  by (simp add: heap_grows_def)

lemma gb_loop_result:
  "\<exists>h1. collect_gb_fields_loop items gb h = Ok (gb @ filter (\<lambda>it. type_of (real_item it) \<noteq> FIELD_ITEM) items, h1) \<and>
        heap_grows h h1 \<and>
        (\<forall>it fld. it \<in> set items \<and> item_field_cast (real_item it) = Some fld \<and>
                  field_index fld < length (tmp_set (tables h (field_table fld))) \<longrightarrow>
                  Field_excl_func_dep_on_grouping_fields h1 fld)"
proof (induction items arbitrary: gb h)
  case Nil
  then show ?case by (simp add: heap_grows_refl)
next
  case (Cons it rest)
  show ?case
  proof (cases "item_field_cast (real_item it)")
    case None
    then have nf: "type_of (real_item it) \<noteq> FIELD_ITEM"
      using item_field_cast_type [of "real_item it"] by simp
    from Cons.IH [of "gb @ [it]" h] obtain h1 where
      r: "collect_gb_fields_loop rest (gb @ [it]) h =
            Ok ((gb @ [it]) @ filter (\<lambda>it. type_of (real_item it) \<noteq> FIELD_ITEM) rest, h1)"
      and g: "heap_grows h h1"
      and f: "\<forall>x fld. x \<in> set rest \<and> item_field_cast (real_item x) = Some fld \<and>
                  field_index fld < length (tmp_set (tables h (field_table fld))) \<longrightarrow>
                  Field_excl_func_dep_on_grouping_fields h1 fld"
      by blast
    show ?thesis
      unfolding gb_loop_Cons None using r g f nf None by auto
  next
    case (Some fld)
    then have isf: "type_of (real_item it) = FIELD_ITEM"
      using item_field_cast_type [of "real_item it"] by simp
    let ?h' = "upd_tmp_set (\<lambda>m. bitmap_set_bit m (field_index fld)) (field_table fld) h"
    have g0: "heap_grows h ?h'" by (rule heap_grows_set_bit)
    from Cons.IH [of gb ?h'] obtain h1 where
      r: "collect_gb_fields_loop rest gb ?h' =
            Ok (gb @ filter (\<lambda>it. type_of (real_item it) \<noteq> FIELD_ITEM) rest, h1)"
      and g: "heap_grows ?h' h1"
      and f: "\<forall>x fld. x \<in> set rest \<and> item_field_cast (real_item x) = Some fld \<and>
                  field_index fld < length (tmp_set (tables ?h' (field_table fld))) \<longrightarrow>
                  Field_excl_func_dep_on_grouping_fields h1 fld"
      by blast
    have here: "field_index fld < length (tmp_set (tables h (field_table fld))) \<Longrightarrow>
                Field_excl_func_dep_on_grouping_fields h1 fld"
      using field_allowed_mono [OF g field_set_after_bit] by simp
    have f': "\<forall>x fld. x \<in> set (it # rest) \<and> item_field_cast (real_item x) = Some fld \<and>
                  field_index fld < length (tmp_set (tables h (field_table fld))) \<longrightarrow>
                  Field_excl_func_dep_on_grouping_fields h1 fld"
      using f here Some heap_grows_length [OF g0] by auto
    show ?thesis
      unfolding gb_loop_Cons Some
      using r heap_grows_trans [OF g0 g] f' isf by auto
  qed
qed

lemma mat_loop_defined:
  "\<forall>tbl \<in> set mat. table tbl \<noteq> None \<Longrightarrow>
   \<exists>r. check_allowed_materialized_derived_loop mat kept h = Ok r"
  by (induction mat arbitrary: kept h) auto

lemma mat_defined:
  "\<forall>tbl \<in> set mat. table tbl \<noteq> None \<Longrightarrow>
   \<exists>r. check_allowed_materialized_derived mat h = Ok r"
proof -
  assume a: "\<forall>tbl \<in> set mat. table tbl \<noteq> None"
  from mat_loop_defined [OF a, of "[]" h] obtain r where
    "check_allowed_materialized_derived_loop mat [] h = Ok r" by blast
  then show ?thesis
    by (cases r) (auto simp: check_allowed_materialized_derived_def obind_simps)
qed

lemma mat_result_flag:
  "check_allowed_materialized_derived mat h = Ok (s, mat', h') \<Longrightarrow>
   s = (length mat \<noteq> length mat')"
  by (auto simp: check_allowed_materialized_derived_def obind_def
           split: if_splits outcome.splits prod.splits)

subsection \<open>Single-field extraction\<close>

text \<open>
  When the candidate part is itself a column reference, extraction marks the column
  exactly when the column is not yet allowed and the dependent part compares with the
  handler the equality was set up with; the whole Allowed-Set of a materialized derived
  table is set with it. Nothing changes otherwise.
\<close>

lemma extract_bare_column:
  "extract_new_func_dep_field eq dp_part (Item_field n th fld) h =
     (if type_handler_for_comparison dp_part = compare_type_handler eq \<and>
         \<not> Field_excl_func_dep_on_grouping_fields h fld
      then Ok (True,
               if is_materialized_derived (pos_in_table_list (tables h (field_table fld)))
               then upd_tmp_set bitmap_set_all (field_table fld)
                      (upd_tmp_set (\<lambda>m. bitmap_set_bit m (field_index fld)) (field_table fld) h)
               else upd_tmp_set (\<lambda>m. bitmap_set_bit m (field_index fld)) (field_table fld) h)
      else Ok (False, h))"
  by (simp add: extract_new_func_dep_field_def Field_excl_func_dep_on_grouping_fields_def
      Let_def upd_tmp_set_def)

lemma extract_not_a_column:
  "type_of (real_item nd_part) \<noteq> FIELD_ITEM \<Longrightarrow>
   extract_new_func_dep_field eq dp_part nd_part h = Ok (False, h)"
  by (simp add: extract_new_func_dep_field_def)

lemma extract_type_mismatch:
  "type_handler_for_comparison dp_part \<noteq> compare_type_handler eq \<Longrightarrow>
   extract_new_func_dep_field eq dp_part nd_part h = Ok (False, h)"
  by (simp add: extract_new_func_dep_field_def)

section \<open>The properties of the analyser\<close>

subsection \<open>Single-field extraction through a reference\<close>

text \<open>
  C1. The candidate part \<^verbatim>\<open>v.b\<close> resolves to exactly one column reference, \<^verbatim>\<open>t.b\<close>,
  the column is not allowed, and the dependent part \<^verbatim>\<open>t.a\<close> compares with the handler
  of the equality; the claim has \<^verbatim>\<open>t.b\<close> marked allowed. The code tests
  \<^verbatim>\<open>nd_part->real_item()->type()\<close> and then casts \<^verbatim>\<open>nd_part\<close> itself, the reference
  node, to \<^verbatim>\<open>Item_field\<close> to read its \<^verbatim>\<open>field\<close>: the behaviour is undefined, and with
  it that of the whole analysis of \<^verbatim>\<open>SELECT a FROM ... WHERE t.a = v.b GROUP BY a\<close>. With
  the column referred to directly the same extraction marks \<^verbatim>\<open>t.b\<close>.
\<close>

theorem extraction_through_reference_undefined:
  "type_of (real_item v_b) = FIELD_ITEM \<and>
   item_field_cast (real_item v_b) = Some (Field 0 2) \<and>
   \<not> Field_excl_func_dep_on_grouping_fields (t_heap [False, True, False]) (Field 0 2) \<and>
   type_handler_for_comparison t_a = compare_type_handler eq_a_v_b \<and>
   extract_new_func_dep_field eq_a_v_b t_a v_b (t_heap [False, True, False]) = Undefined \<and>
   check_func_dep t_caps (t_select [t_a] [t_a] (Some (Item_eq eq_a_v_b)))
     (t_heap [False, False, False]) = Some Undefined \<and>
   extract_new_func_dep_field eq_a_b t_a t_b (t_heap [False, True, False]) =
     Ok (True, upd_tmp_set (\<lambda>m. bitmap_set_bit m 2) 0 (t_heap [False, True, False]))"
  by (simp add: run_defs scn_defs v_b_def eq_a_v_b_def eq_a_b_def)

theorem extraction_through_reference_undefined_witness:
  "extract_new_func_dep_field eq_a_v_b t_a v_b (t_heap [False, True, False]) = Undefined \<and>
   check_func_dep t_caps (t_select [t_a] [t_a] (Some (Item_eq eq_a_v_b)))
     (t_heap [False, False, False]) = Some Undefined"
  using extraction_through_reference_undefined by blast

subsection \<open>Key Closure\<close>

text \<open>
  C2. One run of Key Closure, \<open>check_allowed_unique_keys\<close>: every leaf table of the query
  block that has a primary key all of whose columns are allowed, or some unique key all
  of whose columns are allowed, has all its columns allowed afterwards; and the run
  returns true exactly when the Allowed-Set of some table changed.
\<close>

theorem key_closure_correct:
  assumes "check_allowed_unique_keys sl h = (b, h')"
  shows "(\<forall>tbl t. tbl \<in> set (leaf_tables sl) \<and> table tbl = Some t \<and>
            ((primary_key (tables h t) < MAX_KEY \<and>
              are_key_fields_allowed h (key_info (tables h t) ! primary_key (tables h t))) \<or>
             (\<exists>k \<in> set (key_info (tables h t)). nosame k \<and> are_key_fields_allowed h k))
            \<longrightarrow> bitmap_is_set_all (tmp_set (tables h' t))) \<and>
         (b = (\<exists>t. tmp_set (tables h' t) \<noteq> tmp_set (tables h t)))"
proof -
  have run: "check_allowed_unique_keys_loop (leaf_tables sl) False h = (b, h')"
    using assms by (simp add: check_allowed_unique_keys_def)
  have "b = (\<exists>t. tmp_set (tables h' t) \<noteq> tmp_set (tables h t))"
    using keys_loop_flag [OF run] by simp
  moreover have "\<forall>tbl t. tbl \<in> set (leaf_tables sl) \<and> table tbl = Some t \<and> key_covered h t
                  \<longrightarrow> bitmap_is_set_all (tmp_set (tables h' t))"
    using keys_loop_covers [OF run] by blast
  ultimately show ?thesis unfolding key_covered_def by blast
qed

theorem key_closure_correct_witness:
  "fst (check_allowed_unique_keys (t_select [] [] None) (t_heap [True, False, False])) \<and>
   bitmap_is_set_all
     (tmp_set (tables (snd (check_allowed_unique_keys (t_select [] [] None)
                              (t_heap [True, False, False]))) 0))"
proof -
  let ?sl = "t_select [] [] None" and ?h = "t_heap [True, False, False]"
  obtain b h' where r: "check_allowed_unique_keys ?sl ?h = (b, h')"
    by (cases "check_allowed_unique_keys ?sl ?h")
  note k = key_closure_correct [OF r]
  have pre: "t_leaf \<in> set (leaf_tables ?sl) \<and> table t_leaf = Some 0 \<and>
             primary_key (tables ?h 0) < MAX_KEY \<and>
             are_key_fields_allowed ?h (key_info (tables ?h 0) ! primary_key (tables ?h 0))"
    by (simp add: t_select_def t_leaf_def t_heap_def t_table_def MAX_KEY_def
        are_key_fields_allowed_def Field_excl_func_dep_on_grouping_fields_def bitmap_is_set_def)
  have full: "bitmap_is_set_all (tmp_set (tables h' 0))"
    using k pre by blast
  have "\<not> bitmap_is_set_all (tmp_set (tables ?h 0))"
    by (simp add: t_heap_def t_table_def bitmap_is_set_all_def)
  then have "tmp_set (tables h' 0) \<noteq> tmp_set (tables ?h 0)"
    using full by auto
  then have b using k by blast
  then show ?thesis using full r by simp
qed

subsection \<open>Allowed-Sets only grow\<close>

text \<open>
  C3. Once the Allowed-Sets of the tables of the query block are cleared, no operation
  of the analysis clears a bit: a bit that is set in the store an operation starts from
  is set in the store it ends with, whether it ends with success or with the error.
  This holds for single-field extraction, Key Closure, Derived-Table Closure, the
  Group-By Collector, the Equality Closure over the WHERE clause, and for everything
  \<open>check_func_dep\<close> does after the clearing (the UPDATE special case, the tagging of
  subqueries, the trivial pass, collector, closure and validator): the store
  \<open>check_func_dep\<close> ends with has grown from the store its clearing loop left.
\<close>

theorem allowed_sets_monotone:
  "(extract_new_func_dep_field eq dp_part nd_part h = Ok (b, h') \<longrightarrow> allowed_sets_grow h h') \<and>
   (check_allowed_unique_keys sl h = (k, h') \<longrightarrow> allowed_sets_grow h h') \<and>
   (check_allowed_materialized_derived mat_derived h = Ok (s, mat_derived', h') \<longrightarrow>
      allowed_sets_grow h h') \<and>
   (collect_gb_fields sl mat_derived gb_items h = Ok (gb_items', mat_derived', h') \<longrightarrow>
      allowed_sets_grow h h') \<and>
   (check_where_and_get_new_dependencies caps sl mat_derived h = Some r \<and>
    final_heap r = Some h' \<longrightarrow> allowed_sets_grow h h') \<and>
   (check_func_dep_cleared caps sl mat_derived h = Some r \<and> final_heap r = Some h' \<longrightarrow>
      allowed_sets_grow h h') \<and>
   (check_func_dep caps sl h = Some r \<and> final_heap r = Some h' \<longrightarrow>
      allowed_sets_grow
        (if leaf_tables sl = [] \<or> select_number sl = UINT_MAX \<or> select_number sl = INT_MAX
         then h else snd (clear_leaf_tables (leaf_tables sl) [] h)) h')"
proof (intro conjI impI)
  assume "extract_new_func_dep_field eq dp_part nd_part h = Ok (b, h')"
  then show "allowed_sets_grow h h'"
    using extract_grows [of h eq dp_part nd_part]
    by (simp add: grows_to_simps heap_grows_allowed)
next
  assume "check_allowed_unique_keys sl h = (k, h')"
  then show "allowed_sets_grow h h'"
    by (intro heap_grows_allowed) (rule keys_grows_eq)
next
  assume "check_allowed_materialized_derived mat_derived h = Ok (s, mat_derived', h')"
  then show "allowed_sets_grow h h'"
    using mat_grows [of h mat_derived] by (simp add: grows_to_simps heap_grows_allowed)
next
  assume "collect_gb_fields sl mat_derived gb_items h = Ok (gb_items', mat_derived', h')"
  then show "allowed_sets_grow h h'"
    using collect_gb_grows [of h sl mat_derived gb_items]
    by (simp add: grows_to_simps heap_grows_allowed)
next
  assume a: "check_where_and_get_new_dependencies caps sl mat_derived h = Some r \<and>
             final_heap r = Some h'"
  then have "grows_to h (\<lambda>x. x) r" using check_where_grows by blast
  then show "allowed_sets_grow h h'"
    using a by (cases r) (auto simp: grows_to_simps heap_grows_allowed)
next
  assume a: "check_func_dep_cleared caps sl mat_derived h = Some r \<and> final_heap r = Some h'"
  then have "grows_to h (\<lambda>x. x) r" using cleared_grows by blast
  then show "allowed_sets_grow h h'"
    using a by (cases r) (auto simp: grows_to_simps heap_grows_allowed)
next
  let ?h0 = "if leaf_tables sl = [] \<or> select_number sl = UINT_MAX \<or> select_number sl = INT_MAX
             then h else snd (clear_leaf_tables (leaf_tables sl) [] h)"
  assume a: "check_func_dep caps sl h = Some r \<and> final_heap r = Some h'"
  then have "grows_to ?h0 (\<lambda>x. x) r" using check_func_dep_grows by blast
  then show "allowed_sets_grow ?h0 h'"
    using a by (cases r) (auto simp: grows_to_simps heap_grows_allowed)
qed

theorem allowed_sets_monotone_witness:
  "allowed_sets_grow (t_heap [False, True, False])
     (upd_tmp_set (\<lambda>m. bitmap_set_bit m 2) 0 (t_heap [False, True, False])) \<and>
   allowed_sets_grow (t_heap [True, False, False])
     (snd (check_allowed_unique_keys (t_select [] [] None) (t_heap [True, False, False]))) \<and>
   allowed_sets_grow (t_heap [False, True, False])
     (upd_tmp_set bitmap_set_all 0 (t_heap [False, True, False])) \<and>
   (case collect_gb_fields (t_select [t_a] [t_a, t_b] (Some (Item_eq eq_b_a_plus_1))) [] []
           (t_heap [False, False, False]) of
      Ok q \<Rightarrow> allowed_sets_grow (t_heap [False, False, False]) (snd (snd q))
    | Raised e x \<Rightarrow> False
    | Undefined \<Rightarrow> False) \<and>
   (case check_where_and_get_new_dependencies t_caps
           (t_select [t_a] [t_a, t_b] (Some (Item_eq eq_b_a_plus_1))) []
           (t_heap [False, True, False]) of
      Some (Ok h') \<Rightarrow> allowed_sets_grow (t_heap [False, True, False]) h'
    | _ \<Rightarrow> False) \<and>
   (case check_func_dep_cleared t_caps
           (t_select [t_a] [t_a, t_b] (Some (Item_eq eq_b_a_plus_1))) []
           (t_heap [False, False, False]) of
      Some (Ok h') \<Rightarrow> allowed_sets_grow (t_heap [False, False, False]) h'
    | _ \<Rightarrow> False) \<and>
   (case check_func_dep t_caps
           (t_select [t_a] [t_a, t_b] (Some (Item_eq eq_b_a_plus_1)))
           (t_heap [True, True, True]) of
      Some (Ok h') \<Rightarrow>
        allowed_sets_grow
          (snd (clear_leaf_tables
                  (leaf_tables (t_select [t_a] [t_a, t_b] (Some (Item_eq eq_b_a_plus_1)))) []
                  (t_heap [True, True, True]))) h'
    | _ \<Rightarrow> False)"
proof -
  let ?sl = "t_select [t_a] [t_a, t_b] (Some (Item_eq eq_b_a_plus_1))"
  let ?h0 = "t_heap [False, False, False]"
  let ?ha = "t_heap [False, True, False]"
  let ?hk = "t_heap [True, False, False]"
  have e1: "extract_new_func_dep_field eq_b_a_plus_1 a_plus_1 t_b ?ha =
              Ok (True, upd_tmp_set (\<lambda>m. bitmap_set_bit m 2) 0 ?ha)"
    by (simp add: extract_new_func_dep_field_def eq_b_a_plus_1_def a_plus_1_def t_b_def t_a_def
        t_heap_def t_table_def t_leaf_def bitmap_is_set_def upd_tmp_set_def)
  have c1: "allowed_sets_grow ?ha (upd_tmp_set (\<lambda>m. bitmap_set_bit m 2) 0 ?ha)"
    using allowed_sets_monotone
      [where eq = eq_b_a_plus_1 and dp_part = a_plus_1 and nd_part = t_b and h = ?ha
         and b = True and h' = "upd_tmp_set (\<lambda>m. bitmap_set_bit m 2) 0 ?ha"] e1
    by blast
  obtain k hk' where e2: "check_allowed_unique_keys (t_select [] [] None) ?hk = (k, hk')"
    by (cases "check_allowed_unique_keys (t_select [] [] None) ?hk")
  have c2: "allowed_sets_grow ?hk (snd (check_allowed_unique_keys (t_select [] [] None) ?hk))"
    using allowed_sets_monotone
      [where sl = "t_select [] [] None" and h = ?hk and k = k and h' = hk'] e2
    by simp
  have e3: "check_allowed_materialized_derived [t_leaf] ?ha =
              Ok (True, [], upd_tmp_set bitmap_set_all 0 ?ha)"
    by (simp add: check_allowed_materialized_derived_def t_leaf_def t_heap_def t_table_def
        bitmap_is_clear_all_def obind_simps)
  have c3: "allowed_sets_grow ?ha (upd_tmp_set bitmap_set_all 0 ?ha)"
    using allowed_sets_monotone
      [where mat_derived = "[t_leaf]" and h = ?ha and s = True and mat_derived' = "[]"
         and h' = "upd_tmp_set bitmap_set_all 0 ?ha"] e3
    by blast
  obtain h4 where e4: "collect_gb_fields ?sl [] [] ?h0 = Ok ([], [], h4)"
    by (simp add: collect_gb_fields_def check_allowed_unique_keys_def
        check_allowed_materialized_derived_def scn_defs)
  have c4: "allowed_sets_grow ?h0 h4"
    using allowed_sets_monotone
      [where sl = ?sl and mat_derived = "[]" and gb_items = "[]" and h = ?h0
         and gb_items' = "[]" and mat_derived' = "[]" and h' = h4] e4
    by blast
  obtain h5 where e5: "check_where_and_get_new_dependencies t_caps ?sl [] ?ha = Some (Ok h5)"
    by (simp add: run_defs scn_defs)
  have c5: "allowed_sets_grow ?ha h5"
    using allowed_sets_monotone
      [where caps = t_caps and sl = ?sl and mat_derived = "[]" and h = ?ha and r = "Ok h5"
         and h' = h5] e5
    by simp
  obtain h6 where e6: "check_func_dep_cleared t_caps ?sl [] ?h0 = Some (Ok h6)"
    by (simp add: run_defs scn_defs)
  have c6: "allowed_sets_grow ?h0 h6"
    using allowed_sets_monotone
      [where caps = t_caps and sl = ?sl and mat_derived = "[]" and h = ?h0 and r = "Ok h6"
         and h' = h6] e6
    by simp
  obtain h7 where e7: "check_func_dep t_caps ?sl (t_heap [True, True, True]) = Some (Ok h7)"
    using scenario_where_b_a_plus_1 by blast
  have ns: "\<not> (leaf_tables ?sl = [] \<or> select_number ?sl = UINT_MAX \<or>
               select_number ?sl = INT_MAX)"
    by (simp add: t_select_def UINT_MAX_def INT_MAX_def)
  have c7: "allowed_sets_grow
              (snd (clear_leaf_tables (leaf_tables ?sl) [] (t_heap [True, True, True]))) h7"
    using allowed_sets_monotone
      [where caps = t_caps and sl = ?sl and h = "t_heap [True, True, True]" and r = "Ok h7"
         and h' = h7] e7 ns
    by simp
  show ?thesis using c1 c2 c3 c4 c5 c6 c7 e4 e5 e6 e7 by simp
qed

subsection \<open>The non-determinism guard\<close>

text \<open>
  C4, as the code has it. An equality of the WHERE clause one side of which is itself a
  call of a non-deterministic function (a \<^verbatim>\<open>FUNC_ITEM\<close> whose \<^verbatim>\<open>is_deterministic\<close> is
  false) is skipped by \<open>check_equality_on_new_func_dep\<close> whatever the expression
  capabilities answer: no error is raised, the store with every Allowed-Set is returned
  as it was, and the equality is not put on the worklist of deferred equalities, so that
  it cannot make a column allowed in the fixed-point loop either. As a conjunct of the
  WHERE clause it is passed over; when it is the whole WHERE clause, the Equality
  Closure ends with success and the store that Key Closure makes of the one it was
  given.
\<close>

theorem non_deterministic_equality_skipped:
  assumes "(type_of (argument0 eq_item) = FUNC_ITEM \<and> \<not> is_deterministic (argument0 eq_item)) \<or>
           (type_of (argument1 eq_item) = FUNC_ITEM \<and> \<not> is_deterministic (argument1 eq_item))"
  shows "check_equality_on_new_func_dep caps eq_item sl eq_items h = Ok (eq_items, h) \<and>
         check_where_conjuncts caps sl (Item_eq eq_item # rest) item_arg flds n eq_items h =
           check_where_conjuncts caps sl rest item_arg flds (Suc n) eq_items h \<and>
         (join_conds sl = Some (Item_eq eq_item) \<longrightarrow>
            check_where_and_get_new_dependencies caps sl mat_derived h =
              Some (Ok (snd (check_allowed_unique_keys sl h))))"
proof -
  have skip: "\<And>items. check_equality_on_new_func_dep caps eq_item sl items h = Ok (items, h)"
    using assms by (auto simp: check_equality_on_new_func_dep_def Let_def)
  have "check_where_first_pass caps sl (Item_eq eq_item) h = Ok (Suc 0, [], h)"
    by (simp add: check_where_first_pass_def skip obind_simps)
  then have "join_conds sl = Some (Item_eq eq_item) \<longrightarrow>
            check_where_and_get_new_dependencies caps sl mat_derived h =
              Some (Ok (snd (check_allowed_unique_keys sl h)))"
    by (simp add: check_where_and_get_new_dependencies_def)
  then show ?thesis by (simp add: skip obind_simps)
qed

text \<open>
  The claim as it was stated fails on a side that contains a non-deterministic call
  without being one. In \<^verbatim>\<open>t.b = v.r\<close> the right side is a reference node over
  \<^verbatim>\<open>rand()\<close>, in \<^verbatim>\<open>t.b = (rand() or 1)\<close> it is a condition with \<^verbatim>\<open>rand()\<close> among its
  arguments: neither is a \<^verbatim>\<open>FUNC_ITEM\<close>, the guard lets both equalities through, and
  with the capabilities of the scenarios the column \<^verbatim>\<open>t.b\<close>, not allowed before, is
  extracted from each.
\<close>

theorem contained_non_deterministic_call_counterexample:
  "contains_non_deterministic (argument1 eq_b_v_r) \<and>
   contains_non_deterministic (argument1 eq_b_rand_or_1) \<and>
   \<not> Field_excl_func_dep_on_grouping_fields (t_heap [False, True, False]) (Field 0 2) \<and>
   check_equality_on_new_func_dep t_caps eq_b_v_r
     (t_select [t_a] [t_b] (Some (Item_eq eq_b_v_r))) [] (t_heap [False, True, False]) =
     Ok ([], upd_tmp_set (\<lambda>m. bitmap_set_bit m 2) 0 (t_heap [False, True, False])) \<and>
   check_equality_on_new_func_dep t_caps eq_b_rand_or_1
     (t_select [t_a] [t_b] (Some (Item_eq eq_b_rand_or_1))) [] (t_heap [False, True, False]) =
     Ok ([], upd_tmp_set (\<lambda>m. bitmap_set_bit m 2) 0 (t_heap [False, True, False])) \<and>
   Field_excl_func_dep_on_grouping_fields
     (upd_tmp_set (\<lambda>m. bitmap_set_bit m 2) 0 (t_heap [False, True, False])) (Field 0 2)"
  by (simp add: run_defs scn_defs v_r_def eq_b_v_r_def rand_or_1_def eq_b_rand_or_1_def)

theorem non_deterministic_equality_skipped_witness:
  "check_equality_on_new_func_dep t_caps eq_b_rand (t_select [t_a] [t_b] (Some (Item_eq eq_b_rand)))
     [] (t_heap [False, True, False]) = Ok ([], t_heap [False, True, False]) \<and>
   check_where_and_get_new_dependencies t_caps (t_select [t_a] [t_b] (Some (Item_eq eq_b_rand)))
     [] (t_heap [False, True, False]) =
     Some (Ok (snd (check_allowed_unique_keys (t_select [t_a] [t_b] (Some (Item_eq eq_b_rand)))
                      (t_heap [False, True, False]))))"
proof -
  let ?sl = "t_select [t_a] [t_b] (Some (Item_eq eq_b_rand))"
  have g: "(type_of (argument0 eq_b_rand) = FUNC_ITEM \<and> \<not> is_deterministic (argument0 eq_b_rand)) \<or>
           (type_of (argument1 eq_b_rand) = FUNC_ITEM \<and> \<not> is_deterministic (argument1 eq_b_rand))"
    by (simp add: eq_b_rand_def rand_call_def)
  have c: "join_conds ?sl = Some (Item_eq eq_b_rand)"
    by (simp add: t_select_def)
  note t = non_deterministic_equality_skipped
    [OF g, where caps = t_caps and sl = ?sl and eq_items = "[]"
       and h = "t_heap [False, True, False]" and mat_derived = "[]"]
  show ?thesis using t c by blast
qed

subsection \<open>The fixed-point loop: what a round does with an entry\<close>




subsection \<open>The fixed-point loop terminates\<close>

text \<open>
  C6, as the code has it. The loop over the deferred equalities returns for every query
  block, worklist and store, and so do the whole pass over the WHERE clause and
  \<open>check_func_dep\<close>. A round
  never lengthens the worklist, and a round after which the loop goes on has either
  shortened the worklist or made Key Closure mark one more leaf table fully allowed.
  When the pass of a round extracts nothing, Key Closure runs, and when it makes no
  progress either, the loop ends with success and the store the pass left, the
  remaining deferred equalities being dropped.
\<close>

theorem fixed_point_loop_terminates:
  "(\<exists>r. deferred_loop sl extracted eq_items h = Some r) \<and>
   (\<exists>r. check_where_and_get_new_dependencies caps sl mat_derived h = Some r) \<and>
   (\<exists>r. check_func_dep caps sl h = Some r) \<and>
   (deferred_round sl eq_items h = Ok (ex', items', h') \<longrightarrow>
      length items' \<le> length eq_items \<and>
      (ex' \<and> items' \<noteq> [] \<longrightarrow>
         length items' < length eq_items \<or>
         unresolved_tables sl h' < unresolved_tables sl h)) \<and>
   (eq_items \<noteq> [] \<and>
    deferred_equalities_pass eq_items [] False h = Ok (False, items', hp) \<and>
    \<not> fst (check_allowed_unique_keys sl hp) \<longrightarrow>
      deferred_loop sl True eq_items h = Some (Ok hp))"
proof (intro conjI impI)
  show "\<exists>r. deferred_loop sl extracted eq_items h = Some r"
    by (rule deferred_loop_terminates)
next
  show "\<exists>r. check_where_and_get_new_dependencies caps sl mat_derived h = Some r"
    by (rule check_where_terminates)
next
  show "\<exists>r. check_func_dep caps sl h = Some r"
    by (rule check_func_dep_terminates)
next
  assume r: "deferred_round sl eq_items h = Ok (ex', items', h')"
  show "length items' \<le> length eq_items"
    using round_progress [OF r] by simp
next
  assume r: "deferred_round sl eq_items h = Ok (ex', items', h')"
    and c: "ex' \<and> items' \<noteq> []"
  show "length items' < length eq_items \<or> unresolved_tables sl h' < unresolved_tables sl h"
    using round_progress [OF r] c by simp
next
  assume a: "eq_items \<noteq> [] \<and>
    deferred_equalities_pass eq_items [] False h = Ok (False, items', hp) \<and>
    \<not> fst (check_allowed_unique_keys sl hp)"
  then have k: "check_allowed_unique_keys sl hp = (False, hp)"
    using keys_no_progress_same [of sl hp "snd (check_allowed_unique_keys sl hp)"]
    by (cases "check_allowed_unique_keys sl hp") auto
  have rd: "deferred_round sl eq_items h = Ok (False, items', hp)"
    using a k by (simp add: deferred_round_def obind_simps)
  have "deferred_loop sl False items' hp = Some (Ok hp)"
    by (subst deferred_loop.simps) simp
  then show "deferred_loop sl True eq_items h = Some (Ok hp)"
    using a rd by (subst deferred_loop.simps) simp
qed

text \<open>
  The claim as it was stated fails on "each round either the worklist shrinks or the
  loop ends". For \<^verbatim>\<open>WHERE t.a = t.b AND t.pk = 1\<close> with no column allowed, the pass over
  the WHERE clause defers \<^verbatim>\<open>t.a = t.b\<close> and extracts \<^verbatim>\<open>t.pk\<close>; in the first round of
  the loop neither side of the deferred equality is satisfied, the entry stays, Key
  Closure finds the primary key covered and sets \<^verbatim>\<open>extracted\<close>: the loop goes on with
  the worklist it started with.
\<close>

theorem round_keeps_worklist_counterexample:
  "check_where_first_pass t_caps (t_select [] [] (Some where_a_b_and_pk_1)) where_a_b_and_pk_1
     (t_heap [False, False, False]) =
     Ok (2, [deferred_a_b],
         upd_tmp_set (\<lambda>m. bitmap_set_bit m 0) 0 (t_heap [False, False, False])) \<and>
   (case deferred_round (t_select [] [] (Some where_a_b_and_pk_1)) [deferred_a_b]
           (upd_tmp_set (\<lambda>m. bitmap_set_bit m 0) 0 (t_heap [False, False, False])) of
      Ok r \<Rightarrow> fst r \<and> fst (snd r) = [deferred_a_b]
    | Raised e x \<Rightarrow> False
    | Undefined \<Rightarrow> False)"
  using scn_first_pass scn_round by simp

theorem fixed_point_loop_terminates_witness:
  "unresolved_tables (t_select [] [] (Some where_a_b_and_pk_1))
     (snd (check_allowed_unique_keys (t_select [] [] (Some where_a_b_and_pk_1))
             (upd_tmp_set (\<lambda>m. bitmap_set_bit m 0) 0 (t_heap [False, False, False]))))
   < unresolved_tables (t_select [] [] (Some where_a_b_and_pk_1))
       (upd_tmp_set (\<lambda>m. bitmap_set_bit m 0) 0 (t_heap [False, False, False])) \<and>
   deferred_loop (t_select [] [] None) True [deferred_a_b] (t_heap [False, False, False]) =
     Some (Ok (t_heap [False, False, False]))"
proof -
  let ?sl = "t_select [] [] (Some where_a_b_and_pk_1)"
  let ?h1 = "upd_tmp_set (\<lambda>m. bitmap_set_bit m 0) 0 (t_heap [False, False, False])"
  let ?h2 = "snd (check_allowed_unique_keys ?sl ?h1)"
  let ?h0 = "t_heap [False, False, False]"
  note t1 = fixed_point_loop_terminates
    [where sl = ?sl and eq_items = "[deferred_a_b]" and h = ?h1 and ex' = True
       and items' = "[deferred_a_b]" and h' = ?h2]
  have a: "unresolved_tables ?sl ?h2 < unresolved_tables ?sl ?h1"
  proof -
    have "deferred_round ?sl [deferred_a_b] ?h1 = Ok (True, [deferred_a_b], ?h2) \<longrightarrow>
          length [deferred_a_b] \<le> length [deferred_a_b] \<and>
          (True \<and> [deferred_a_b] \<noteq> [] \<longrightarrow>
             length [deferred_a_b] < length [deferred_a_b] \<or>
             unresolved_tables ?sl ?h2 < unresolved_tables ?sl ?h1)"
      using t1 by blast
    then show ?thesis using scn_round by simp
  qed
  have f: "\<not> fields_allowed ?h0 (fields_l deferred_a_b)"
          "\<not> fields_allowed ?h0 (fields_r deferred_a_b)"
    by (simp_all add: fields_allowed_def deferred_a_b_def t_heap_def t_table_def
        Field_excl_func_dep_on_grouping_fields_def bitmap_is_set_def)
  have p: "deferred_equalities_pass [deferred_a_b] [] False ?h0 = Ok (False, [deferred_a_b], ?h0)"
    using f by (simp add: step_neither obind_simps)
  have k: "\<not> fst (check_allowed_unique_keys (t_select [] [] None) ?h0)"
    by (simp add: check_allowed_unique_keys_def t_select_def t_leaf_def t_heap_def t_table_def
        MAX_KEY_def are_key_fields_allowed_def Field_excl_func_dep_on_grouping_fields_def
        bitmap_is_set_def bitmap_is_set_all_def)
  note t2 = fixed_point_loop_terminates
    [where sl = "t_select [] [] None" and eq_items = "[deferred_a_b]" and h = ?h0
       and items' = "[deferred_a_b]" and hp = ?h0]
  have b: "deferred_loop (t_select [] [] None) True [deferred_a_b] ?h0 = Some (Ok ?h0)"
  proof -
    have "[deferred_a_b] \<noteq> [] \<and>
          deferred_equalities_pass [deferred_a_b] [] False ?h0 = Ok (False, [deferred_a_b], ?h0) \<and>
          \<not> fst (check_allowed_unique_keys (t_select [] [] None) ?h0) \<longrightarrow>
          deferred_loop (t_select [] [] None) True [deferred_a_b] ?h0 = Some (Ok ?h0)"
      using t2 by blast
    then show ?thesis using p k by blast
  qed
  show ?thesis using a b by simp
qed

subsection \<open>The trivial pass\<close>

text \<open>
  C7. A query block with an empty GROUP BY list and no HAVING clause that is analysed
  (it has leaf tables and is not an internal placeholder) is to have every column of
  its leaf tables marked allowed and, without an aggregating block around it, to pass.
  The loop that clears the Allowed-Sets skips a leaf table whose \<^verbatim>\<open>table\<close> pointer is
  null; the loop of the trivial pass that sets them does not test the pointer. So for
  every such block one of whose leaf tables has no table object, whatever the block
  around it, the SELECT list, the WHERE clause and the expression capabilities are, the
  behaviour of \<open>check_func_dep\<close> is undefined (a null pointer is dereferenced): it
  neither returns success nor goes on to the Group-By Collector.
\<close>

theorem trivial_pass_unopened_table_undefined:
  assumes "group_list sl = []" and "having sl = None"
    and "select_number sl \<noteq> UINT_MAX" and "select_number sl \<noteq> INT_MAX"
    and "tbl \<in> set (leaf_tables sl)" and "table tbl = None"
  shows "check_func_dep caps sl h = Some Undefined"
proof -
  obtain mat hz where cl: "clear_leaf_tables (leaf_tables sl) [] h = (mat, hz)"
    by (cases "clear_leaf_tables (leaf_tables sl) [] h")
  have ne: "leaf_tables sl \<noteq> []" using assms(5) by auto
  have "check_func_dep_cleared caps sl mat hz = Some Undefined"
  proof (cases "set_update_table_fields sl hz")
    case (Ok hu)
    have "set_all_leaf_tables (leaf_tables sl) (set_subqueries_context sl hu) = Undefined"
      using set_all_leaf_undefined [OF assms(5,6)] .
    then show ?thesis
      using Ok assms(1,2) by (simp add: check_func_dep_cleared_def Let_def)
  next
    case (Raised e x)
    then show ?thesis using set_update_not_raised [of sl hz e x] by simp
  next
    case Undefined
    then show ?thesis by (simp add: check_func_dep_cleared_def)
  qed
  then show ?thesis
    using ne assms(3,4) cl by (simp add: check_func_dep_def)
qed

theorem trivial_pass_unopened_table_undefined_witness:
  "group_list (u_select [t_b]) = [] \<and> having (u_select [t_b]) = None \<and>
   outer_select (u_select [t_b]) = None \<and>
   clear_leaf_tables (leaf_tables (u_select [t_b])) [] (t_heap [False, False, False]) =
     ([], upd_tmp_set bitmap_clear_all 0 (t_heap [False, False, False])) \<and>
   check_func_dep t_caps (u_select [t_b]) (t_heap [False, False, False]) = Some Undefined"
proof -
  have a: "group_list (u_select [t_b]) = []" "having (u_select [t_b]) = None"
    "select_number (u_select [t_b]) \<noteq> UINT_MAX" "select_number (u_select [t_b]) \<noteq> INT_MAX"
    "u_leaf \<in> set (leaf_tables (u_select [t_b]))" "table u_leaf = None"
    by (simp_all add: u_select_def u_leaf_def UINT_MAX_def INT_MAX_def)
  have b: "outer_select (u_select [t_b]) = None"
    "clear_leaf_tables (leaf_tables (u_select [t_b])) [] (t_heap [False, False, False]) =
       ([], upd_tmp_set bitmap_clear_all 0 (t_heap [False, False, False]))"
    by (simp_all add: u_select_def u_leaf_def t_leaf_def)
  show ?thesis
    using trivial_pass_unopened_table_undefined [OF a, of t_caps "t_heap [False, False, False]"]
      a(1,2) b
    by simp
qed

subsection \<open>Error handling\<close>

text \<open>
  C8. The only error \<open>check_func_dep\<close> raises is \<^verbatim>\<open>ER_NON_GROUPING_FIELD_USED\<close>, with the
  display name of an expression and one of the clause names \<^verbatim>\<open>SELECT list\<close>,
  \<^verbatim>\<open>HAVING clause\<close>, \<^verbatim>\<open>WHERE clause\<close>. The SELECT list is checked in order and the error
  names the offending expression of the first item that fails, in the \<^verbatim>\<open>SELECT list\<close>.
  An error of the SELECT list is the result of the analysis whatever the HAVING clause
  is, an error of the WHERE clause is the result without the SELECT list being looked
  at, and HAVING is reported, as \<^verbatim>\<open>HAVING clause\<close>, only when the SELECT list passed.

  For a query block that is analysed (it has leaf tables, is not a placeholder, and is
  not let through by the trivial pass) and whose Group-By Collector returns, the result
  of \<open>check_func_dep\<close> itself is: the error of the WHERE clause when the Equality Closure
  raises one; otherwise the error that names the offending expression of the first
  SELECT-list item that fails, with \<^verbatim>\<open>SELECT list\<close>, whatever HAVING is; otherwise, all
  items of the SELECT list passing, the error that names the offending expression of
  HAVING, with \<^verbatim>\<open>HAVING clause\<close>; and success, with the store of the Equality Closure,
  when nothing fails. The Equality Closure raises the error with \<^verbatim>\<open>WHERE clause\<close> and
  the display name of the offending expression for a WHERE condition, or a conjunct of
  it, that is not an equality and is reported as not closed with an offending
  expression, the conjuncts after it not being looked at, and for an equality whose left
  side is reported so and yields no column.
\<close>

theorem non_grouping_field_error:
  "(check_func_dep caps sl h = Some (Raised e x) \<longrightarrow>
      (\<exists>name clause. e = ER_NON_GROUPING_FIELD_USED name clause \<and>
         clause \<in> {''SELECT list'', ''HAVING clause'', ''WHERE clause''})) \<and>
   (item_list sl = pre @ item # post \<and>
    (\<forall>p \<in> set pre. fst (excl_func_dep_on_grouping_fields caps h sl gb p None)) \<and>
    excl_func_dep_on_grouping_fields caps h sl gb item None = (False, Some a) \<longrightarrow>
      are_select_list_fields_allowed caps sl gb h =
        Raised (ER_NON_GROUPING_FIELD_USED (full_name (real_item a)) ''SELECT list'') h) \<and>
   (collect_gb_fields sl mat [] h = Ok (gb, mat', hc) \<and>
    check_where_and_get_new_dependencies caps sl mat' hc = Some (Ok hw) \<and>
    are_select_list_fields_allowed caps sl gb hw = Raised e x \<longrightarrow>
      check_func_dep_closure caps sl mat h = Some (Raised e x)) \<and>
   (collect_gb_fields sl mat [] h = Ok (gb, mat', hc) \<and>
    check_where_and_get_new_dependencies caps sl mat' hc = Some (Raised e x) \<longrightarrow>
      check_func_dep_closure caps sl mat h = Some (Raised e x)) \<and>
   (collect_gb_fields sl mat [] h = Ok (gb, mat', hc) \<and>
    check_where_and_get_new_dependencies caps sl mat' hc = Some (Ok hw) \<and>
    are_select_list_fields_allowed caps sl gb hw = Ok okay \<and>
    join_having sl = Some hv \<and>
    excl_func_dep_on_grouping_fields caps hw sl gb hv None = (False, Some a) \<longrightarrow>
      check_func_dep_closure caps sl mat h =
        Some (Raised (ER_NON_GROUPING_FIELD_USED (full_name (real_item a)) ''HAVING clause'') hw)) \<and>
   (leaf_tables sl \<noteq> [] \<and> select_number sl \<noteq> UINT_MAX \<and> select_number sl \<noteq> INT_MAX \<and>
    clear_leaf_tables (leaf_tables sl) [] h = (mat, hz) \<and>
    set_update_table_fields sl hz = Ok hu \<and>
    (if group_list sl = [] \<and> having sl = None
     then need_check sl \<and>
          set_all_leaf_tables (leaf_tables sl) (set_subqueries_context sl hu) = Ok hq
     else hq = set_subqueries_context sl hu) \<and>
    collect_gb_fields sl mat [] hq = Ok (gb, mat', hc) \<longrightarrow>
      (check_where_and_get_new_dependencies caps sl mat' hc = Some (Raised e x) \<longrightarrow>
         check_func_dep caps sl h = Some (Raised e x)) \<and>
      (check_where_and_get_new_dependencies caps sl mat' hc = Some (Ok hw) \<longrightarrow>
         (item_list sl = pre @ item # post \<and>
          (\<forall>p \<in> set pre. fst (excl_func_dep_on_grouping_fields caps hw sl gb p None)) \<and>
          excl_func_dep_on_grouping_fields caps hw sl gb item None = (False, Some a) \<longrightarrow>
            check_func_dep caps sl h =
              Some (Raised (ER_NON_GROUPING_FIELD_USED (full_name (real_item a))
                              ''SELECT list'') hw)) \<and>
         ((\<forall>p \<in> set (item_list sl).
              fst (excl_func_dep_on_grouping_fields caps hw sl gb p None)) \<and>
          join_having sl = Some hv \<and>
          excl_func_dep_on_grouping_fields caps hw sl gb hv None = (False, Some a) \<longrightarrow>
            check_func_dep caps sl h =
              Some (Raised (ER_NON_GROUPING_FIELD_USED (full_name (real_item a))
                              ''HAVING clause'') hw)) \<and>
         ((\<forall>p \<in> set (item_list sl).
              fst (excl_func_dep_on_grouping_fields caps hw sl gb p None)) \<and>
          (case join_having sl of
             None \<Rightarrow> True
           | Some hv \<Rightarrow> fst (excl_func_dep_on_grouping_fields caps hw sl gb hv None)) \<longrightarrow>
            check_func_dep caps sl h = Some (Ok hw)))) \<and>
   (join_conds sl = Some cond \<and>
    \<not> (type_of cond = COND_ITEM \<and> functype cond = COND_AND_FUNC) \<and>
    \<not> (type_of cond = FUNC_ITEM \<and> functype cond = EQ_FUNC) \<and>
    excl_func_dep_from_equalities caps hc sl cond None [] = (False, Some a, flds) \<longrightarrow>
      check_where_and_get_new_dependencies caps sl mat' hc =
        Some (Raised (ER_NON_GROUPING_FIELD_USED (full_name (real_item a)) ''WHERE clause'')
                hc)) \<and>
   (\<not> (type_of item = FUNC_ITEM \<and> functype item = EQ_FUNC) \<and>
    excl_func_dep_from_equalities caps hc sl item item_arg flds = (False, Some a, flds') \<longrightarrow>
      check_where_conjuncts caps sl (item # post) item_arg flds n eq_items hc =
        Raised (ER_NON_GROUPING_FIELD_USED (full_name (real_item a)) ''WHERE clause'') hc) \<and>
   (join_conds sl = Some (Item_eq eq_item) \<and>
    \<not> ((type_of (argument0 eq_item) = FUNC_ITEM \<and> \<not> is_deterministic (argument0 eq_item)) \<or>
        (type_of (argument1 eq_item) = FUNC_ITEM \<and> \<not> is_deterministic (argument1 eq_item))) \<and>
    excl_func_dep_from_equalities caps hc sl (argument0 eq_item) None [] =
      (False, Some a, []) \<longrightarrow>
      check_where_and_get_new_dependencies caps sl mat' hc =
        Some (Raised (ER_NON_GROUPING_FIELD_USED (full_name (real_item a)) ''WHERE clause'')
                hc))"
proof (intro conjI impI)
  assume "check_func_dep caps sl h = Some (Raised e x)"
  from check_func_dep_known [OF this]
  show "\<exists>name clause. e = ER_NON_GROUPING_FIELD_USED name clause \<and>
          clause \<in> {''SELECT list'', ''HAVING clause'', ''WHERE clause''}"
    by (cases e) (simp add: known_clause_simps clause_ok_def)
next
  assume "item_list sl = pre @ item # post \<and>
    (\<forall>p \<in> set pre. fst (excl_func_dep_on_grouping_fields caps h sl gb p None)) \<and>
    excl_func_dep_on_grouping_fields caps h sl gb item None = (False, Some a)"
  then show "are_select_list_fields_allowed caps sl gb h =
        Raised (ER_NON_GROUPING_FIELD_USED (full_name (real_item a)) ''SELECT list'') h"
    using select_list_first_violation [of pre caps h sl gb item a post]
    by (simp add: are_select_list_fields_allowed_def my_error_non_grouping_def)
next
  assume "collect_gb_fields sl mat [] h = Ok (gb, mat', hc) \<and>
    check_where_and_get_new_dependencies caps sl mat' hc = Some (Ok hw) \<and>
    are_select_list_fields_allowed caps sl gb hw = Raised e x"
  then show "check_func_dep_closure caps sl mat h = Some (Raised e x)"
    by (simp add: check_func_dep_closure_def obind_simps)
next
  assume "collect_gb_fields sl mat [] h = Ok (gb, mat', hc) \<and>
    check_where_and_get_new_dependencies caps sl mat' hc = Some (Raised e x)"
  then show "check_func_dep_closure caps sl mat h = Some (Raised e x)"
    by (simp add: check_func_dep_closure_def)
next
  assume "collect_gb_fields sl mat [] h = Ok (gb, mat', hc) \<and>
    check_where_and_get_new_dependencies caps sl mat' hc = Some (Ok hw) \<and>
    are_select_list_fields_allowed caps sl gb hw = Ok okay \<and>
    join_having sl = Some hv \<and>
    excl_func_dep_on_grouping_fields caps hw sl gb hv None = (False, Some a)"
  then show "check_func_dep_closure caps sl mat h =
        Some (Raised (ER_NON_GROUPING_FIELD_USED (full_name (real_item a)) ''HAVING clause'') hw)"
    by (simp add: check_func_dep_closure_def obind_simps are_having_fields_allowed_def
        my_error_non_grouping_def)
next
  assume r: "leaf_tables sl \<noteq> [] \<and> select_number sl \<noteq> UINT_MAX \<and> select_number sl \<noteq> INT_MAX \<and>
    clear_leaf_tables (leaf_tables sl) [] h = (mat, hz) \<and>
    set_update_table_fields sl hz = Ok hu \<and>
    (if group_list sl = [] \<and> having sl = None
     then need_check sl \<and>
          set_all_leaf_tables (leaf_tables sl) (set_subqueries_context sl hu) = Ok hq
     else hq = set_subqueries_context sl hu) \<and>
    collect_gb_fields sl mat [] hq = Ok (gb, mat', hc)"
    and w: "check_where_and_get_new_dependencies caps sl mat' hc = Some (Raised e x)"
  from r have "check_func_dep caps sl h = check_func_dep_closure caps sl mat hq"
    by (intro check_func_dep_reach [where hz = hz and hu = hu]) simp_all
  also have "\<dots> = Some (Raised e x)"
    using r w by (intro closure_where_raised [where gb = gb and mat' = mat' and hc = hc]) blast+
  finally show "check_func_dep caps sl h = Some (Raised e x)" .
next
  assume r: "leaf_tables sl \<noteq> [] \<and> select_number sl \<noteq> UINT_MAX \<and> select_number sl \<noteq> INT_MAX \<and>
    clear_leaf_tables (leaf_tables sl) [] h = (mat, hz) \<and>
    set_update_table_fields sl hz = Ok hu \<and>
    (if group_list sl = [] \<and> having sl = None
     then need_check sl \<and>
          set_all_leaf_tables (leaf_tables sl) (set_subqueries_context sl hu) = Ok hq
     else hq = set_subqueries_context sl hu) \<and>
    collect_gb_fields sl mat [] hq = Ok (gb, mat', hc)"
    and w: "check_where_and_get_new_dependencies caps sl mat' hc = Some (Ok hw)"
    and s: "item_list sl = pre @ item # post \<and>
          (\<forall>p \<in> set pre. fst (excl_func_dep_on_grouping_fields caps hw sl gb p None)) \<and>
          excl_func_dep_on_grouping_fields caps hw sl gb item None = (False, Some a)"
  from r have "check_func_dep caps sl h = check_func_dep_closure caps sl mat hq"
    by (intro check_func_dep_reach [where hz = hz and hu = hu]) simp_all
  also have "\<dots> = Some (Raised (ER_NON_GROUPING_FIELD_USED (full_name (real_item a))
                              ''SELECT list'') hw)"
    using r w s
    by (intro closure_select_raised [where mat' = mat' and hc = hc and pre = pre
          and item = item and post = post]) blast+
  finally show "check_func_dep caps sl h =
              Some (Raised (ER_NON_GROUPING_FIELD_USED (full_name (real_item a))
                              ''SELECT list'') hw)" .
next
  assume r: "leaf_tables sl \<noteq> [] \<and> select_number sl \<noteq> UINT_MAX \<and> select_number sl \<noteq> INT_MAX \<and>
    clear_leaf_tables (leaf_tables sl) [] h = (mat, hz) \<and>
    set_update_table_fields sl hz = Ok hu \<and>
    (if group_list sl = [] \<and> having sl = None
     then need_check sl \<and>
          set_all_leaf_tables (leaf_tables sl) (set_subqueries_context sl hu) = Ok hq
     else hq = set_subqueries_context sl hu) \<and>
    collect_gb_fields sl mat [] hq = Ok (gb, mat', hc)"
    and w: "check_where_and_get_new_dependencies caps sl mat' hc = Some (Ok hw)"
    and s: "(\<forall>p \<in> set (item_list sl).
              fst (excl_func_dep_on_grouping_fields caps hw sl gb p None)) \<and>
          join_having sl = Some hv \<and>
          excl_func_dep_on_grouping_fields caps hw sl gb hv None = (False, Some a)"
  from r have "check_func_dep caps sl h = check_func_dep_closure caps sl mat hq"
    by (intro check_func_dep_reach [where hz = hz and hu = hu]) simp_all
  also have "\<dots> = Some (Raised (ER_NON_GROUPING_FIELD_USED (full_name (real_item a))
                              ''HAVING clause'') hw)"
    using r w s
    by (intro closure_having_raised [where mat' = mat' and hc = hc and hv = hv]) blast+
  finally show "check_func_dep caps sl h =
              Some (Raised (ER_NON_GROUPING_FIELD_USED (full_name (real_item a))
                              ''HAVING clause'') hw)" .
next
  assume r: "leaf_tables sl \<noteq> [] \<and> select_number sl \<noteq> UINT_MAX \<and> select_number sl \<noteq> INT_MAX \<and>
    clear_leaf_tables (leaf_tables sl) [] h = (mat, hz) \<and>
    set_update_table_fields sl hz = Ok hu \<and>
    (if group_list sl = [] \<and> having sl = None
     then need_check sl \<and>
          set_all_leaf_tables (leaf_tables sl) (set_subqueries_context sl hu) = Ok hq
     else hq = set_subqueries_context sl hu) \<and>
    collect_gb_fields sl mat [] hq = Ok (gb, mat', hc)"
    and w: "check_where_and_get_new_dependencies caps sl mat' hc = Some (Ok hw)"
    and s: "(\<forall>p \<in> set (item_list sl).
              fst (excl_func_dep_on_grouping_fields caps hw sl gb p None)) \<and>
          (case join_having sl of
             None \<Rightarrow> True
           | Some hv \<Rightarrow> fst (excl_func_dep_on_grouping_fields caps hw sl gb hv None))"
  from r have "check_func_dep caps sl h = check_func_dep_closure caps sl mat hq"
    by (intro check_func_dep_reach [where hz = hz and hu = hu]) simp_all
  also have "\<dots> = Some (Ok hw)"
    using r w s
    by (intro closure_passes [where gb = gb and mat' = mat' and hc = hc]) blast+
  finally show "check_func_dep caps sl h = Some (Ok hw)" .
next
  assume "join_conds sl = Some cond \<and>
    \<not> (type_of cond = COND_ITEM \<and> functype cond = COND_AND_FUNC) \<and>
    \<not> (type_of cond = FUNC_ITEM \<and> functype cond = EQ_FUNC) \<and>
    excl_func_dep_from_equalities caps hc sl cond None [] = (False, Some a, flds)"
  then show "check_where_and_get_new_dependencies caps sl mat' hc =
        Some (Raised (ER_NON_GROUPING_FIELD_USED (full_name (real_item a)) ''WHERE clause'')
                hc)"
    by (intro where_other_raised [where cond = cond and flds = flds]) simp_all
next
  assume "\<not> (type_of item = FUNC_ITEM \<and> functype item = EQ_FUNC) \<and>
    excl_func_dep_from_equalities caps hc sl item item_arg flds = (False, Some a, flds')"
  then show "check_where_conjuncts caps sl (item # post) item_arg flds n eq_items hc =
        Raised (ER_NON_GROUPING_FIELD_USED (full_name (real_item a)) ''WHERE clause'') hc"
    by (intro where_conjunct_raised [where flds' = flds']) simp_all
next
  assume "join_conds sl = Some (Item_eq eq_item) \<and>
    \<not> ((type_of (argument0 eq_item) = FUNC_ITEM \<and> \<not> is_deterministic (argument0 eq_item)) \<or>
        (type_of (argument1 eq_item) = FUNC_ITEM \<and> \<not> is_deterministic (argument1 eq_item))) \<and>
    excl_func_dep_from_equalities caps hc sl (argument0 eq_item) None [] =
      (False, Some a, [])"
  then show "check_where_and_get_new_dependencies caps sl mat' hc =
        Some (Raised (ER_NON_GROUPING_FIELD_USED (full_name (real_item a)) ''WHERE clause'')
                hc)"
    by (intro where_equality_raised [where eq_item = eq_item]) simp_all
qed

theorem non_grouping_field_error_witness:
  "(\<exists>name clause. ER_NON_GROUPING_FIELD_USED ''t.b'' ''SELECT list'' =
        ER_NON_GROUPING_FIELD_USED name clause \<and>
      clause \<in> {''SELECT list'', ''HAVING clause'', ''WHERE clause''}) \<and>
   are_select_list_fields_allowed t_caps (t_select [t_a] [t_a, t_b] None) []
       (t_heap [False, True, False]) =
     Raised (ER_NON_GROUPING_FIELD_USED ''t.b'' ''SELECT list'') (t_heap [False, True, False]) \<and>
   check_func_dep_closure t_caps (t_select [t_a] [t_a, t_b] None) []
       (t_heap [False, False, False]) =
     Some (Raised (ER_NON_GROUPING_FIELD_USED ''t.b'' ''SELECT list'')
             (upd_tmp_set (\<lambda>m. bitmap_set_bit m 1) 0 (t_heap [False, False, False]))) \<and>
   check_func_dep_closure outer_ref_caps (t_select [t_a] [t_a] (Some t_b)) []
       (t_heap [False, False, False]) =
     Some (Raised (ER_NON_GROUPING_FIELD_USED ''t.b'' ''WHERE clause'')
             (upd_tmp_set (\<lambda>m. bitmap_set_bit m 1) 0 (t_heap [False, False, False]))) \<and>
   check_func_dep_closure t_caps
       ((t_select [t_a] [t_a] None)\<lparr>having := Some t_b, join_having := Some t_b\<rparr>) []
       (t_heap [False, False, False]) =
     Some (Raised (ER_NON_GROUPING_FIELD_USED ''t.b'' ''HAVING clause'')
             (upd_tmp_set (\<lambda>m. bitmap_set_bit m 1) 0 (t_heap [False, False, False]))) \<and>
   check_func_dep t_caps (t_select [t_a] [t_a, t_b] None) (t_heap [True, False, True]) =
     Some (Raised (ER_NON_GROUPING_FIELD_USED ''t.b'' ''SELECT list'')
             (upd_tmp_set (\<lambda>m. bitmap_set_bit m 1) 0
                (upd_tmp_set bitmap_clear_all 0 (t_heap [True, False, True])))) \<and>
   check_func_dep t_caps
       ((t_select [t_a] [t_a, t_b] None)\<lparr>having := Some t_b, join_having := Some t_b\<rparr>)
       (t_heap [True, False, True]) =
     Some (Raised (ER_NON_GROUPING_FIELD_USED ''t.b'' ''SELECT list'')
             (upd_tmp_set (\<lambda>m. bitmap_set_bit m 1) 0
                (upd_tmp_set bitmap_clear_all 0 (t_heap [True, False, True])))) \<and>
   check_func_dep t_caps
       ((t_select [t_a] [t_a] None)\<lparr>having := Some t_b, join_having := Some t_b\<rparr>)
       (t_heap [True, False, True]) =
     Some (Raised (ER_NON_GROUPING_FIELD_USED ''t.b'' ''HAVING clause'')
             (upd_tmp_set (\<lambda>m. bitmap_set_bit m 1) 0
                (upd_tmp_set bitmap_clear_all 0 (t_heap [True, False, True])))) \<and>
   check_func_dep outer_ref_caps (t_select [t_a] [t_a] (Some t_b)) (t_heap [True, False, True]) =
     Some (Raised (ER_NON_GROUPING_FIELD_USED ''t.b'' ''WHERE clause'')
             (upd_tmp_set (\<lambda>m. bitmap_set_bit m 1) 0
                (upd_tmp_set bitmap_clear_all 0 (t_heap [True, False, True])))) \<and>
   check_func_dep outer_ref_caps (t_select [t_a] [t_a] (Some (Item_eq eq_b_pk)))
       (t_heap [True, False, True]) =
     Some (Raised (ER_NON_GROUPING_FIELD_USED ''t.b'' ''WHERE clause'')
             (upd_tmp_set (\<lambda>m. bitmap_set_bit m 1) 0
                (upd_tmp_set bitmap_clear_all 0 (t_heap [True, False, True])))) \<and>
   check_func_dep t_caps (t_select [t_a] [t_a] None) (t_heap [True, False, True]) =
     Some (Ok (upd_tmp_set (\<lambda>m. bitmap_set_bit m 1) 0
                (upd_tmp_set bitmap_clear_all 0 (t_heap [True, False, True])))) \<and>
   check_where_conjuncts outer_ref_caps (t_select [t_a] [t_a] (Some t_b))
       [t_b, Item_eq eq_a_b] None [] 0 []
       (upd_tmp_set (\<lambda>m. bitmap_set_bit m 1) 0
          (upd_tmp_set bitmap_clear_all 0 (t_heap [True, False, True]))) =
     Raised (ER_NON_GROUPING_FIELD_USED ''t.b'' ''WHERE clause'')
       (upd_tmp_set (\<lambda>m. bitmap_set_bit m 1) 0
          (upd_tmp_set bitmap_clear_all 0 (t_heap [True, False, True])))"
proof -
  let ?h0 = "t_heap [False, False, False]"
  let ?h1 = "upd_tmp_set (\<lambda>m. bitmap_set_bit m 1) 0 ?h0"
  let ?ha = "t_heap [False, True, False]"
  let ?hi = "t_heap [True, False, True]"
  let ?hz = "upd_tmp_set bitmap_clear_all 0 ?hi"
  let ?hk = "upd_tmp_set (\<lambda>m. bitmap_set_bit m 1) 0 ?hz"
  let ?sl = "t_select [t_a] [t_a, t_b] None"
  let ?sw = "t_select [t_a] [t_a] (Some t_b)"
  let ?se = "t_select [t_a] [t_a] (Some (Item_eq eq_b_pk))"
  let ?sh = "(t_select [t_a] [t_a] None)\<lparr>having := Some t_b, join_having := Some t_b\<rparr>"
  let ?sb = "(t_select [t_a] [t_a, t_b] None)\<lparr>having := Some t_b, join_having := Some t_b\<rparr>"
  let ?sp = "t_select [t_a] [t_a] None"
  let ?err = "\<lambda>clause. ER_NON_GROUPING_FIELD_USED (full_name (real_item t_b)) clause"
  have n: "full_name (real_item t_b) = ''t.b''" by (simp add: t_b_def)
  obtain x where run: "check_func_dep t_caps ?sl (t_heap [True, True, True]) =
      Some (Raised (ER_NON_GROUPING_FIELD_USED ''t.b'' ''SELECT list'') x)"
    using scenario_group_by_a by blast
  have w1: "\<exists>name clause. ER_NON_GROUPING_FIELD_USED ''t.b'' ''SELECT list'' =
        ER_NON_GROUPING_FIELD_USED name clause \<and>
      clause \<in> {''SELECT list'', ''HAVING clause'', ''WHERE clause''}"
    by (rule mp [OF non_grouping_field_error
      [where caps = t_caps and sl = ?sl and h = "t_heap [True, True, True]"
         and e = "ER_NON_GROUPING_FIELD_USED ''t.b'' ''SELECT list''" and x = x,
       THEN conjunct1] run])
  have p2: "item_list ?sl = [t_a] @ t_b # [] \<and>
    (\<forall>p \<in> set [t_a]. fst (excl_func_dep_on_grouping_fields t_caps ?ha ?sl [] p None)) \<and>
    excl_func_dep_on_grouping_fields t_caps ?ha ?sl [] t_b None = (False, Some t_b)"
    by (simp add: scn_defs)
  have w2: "are_select_list_fields_allowed t_caps ?sl [] ?ha =
     Raised (ER_NON_GROUPING_FIELD_USED (full_name (real_item t_b)) ''SELECT list'') ?ha"
    by (rule mp [OF non_grouping_field_error
      [where caps = t_caps and sl = ?sl and h = ?ha and pre = "[t_a]" and item = t_b
         and post = "[]" and gb = "[]" and a = t_b,
       THEN conjunct2, THEN conjunct1] p2])
  have c3: "collect_gb_fields ?sl [] [] ?h0 = Ok ([], [], ?h1)"
    by (simp add: collect_gb_fields_def check_allowed_unique_keys_def
        check_allowed_materialized_derived_def scn_defs)
  have r3: "check_where_and_get_new_dependencies t_caps ?sl [] ?h1 = Some (Ok ?h1)"
    by (simp add: check_where_and_get_new_dependencies_def t_select_def)
  have s3: "are_select_list_fields_allowed t_caps ?sl [] ?h1 =
     Raised (ER_NON_GROUPING_FIELD_USED ''t.b'' ''SELECT list'') ?h1"
    by (simp add: are_select_list_fields_allowed_def my_error_non_grouping_def scn_defs)
  have w3: "check_func_dep_closure t_caps ?sl [] ?h0 =
     Some (Raised (ER_NON_GROUPING_FIELD_USED ''t.b'' ''SELECT list'') ?h1)"
    by (rule mp [OF non_grouping_field_error
      [where caps = t_caps and sl = ?sl and h = ?h0 and mat = "[]" and gb = "[]"
         and mat' = "[]" and hc = ?h1 and hw = ?h1
         and e = "ER_NON_GROUPING_FIELD_USED ''t.b'' ''SELECT list''" and x = ?h1,
       THEN conjunct2, THEN conjunct2, THEN conjunct1]
      conjI [OF c3 conjI [OF r3 s3]]])
  have c4: "collect_gb_fields ?sw [] [] ?h0 = Ok ([], [], ?h1)"
    by (simp add: collect_gb_fields_def check_allowed_unique_keys_def
        check_allowed_materialized_derived_def scn_defs)
  have r4: "check_where_and_get_new_dependencies outer_ref_caps ?sw [] ?h1 =
     Some (Raised (ER_NON_GROUPING_FIELD_USED ''t.b'' ''WHERE clause'') ?h1)"
    by (simp add: check_where_and_get_new_dependencies_def check_where_first_pass_def
        check_where_other_def outer_ref_caps_def my_error_non_grouping_def scn_defs)
  have w4: "check_func_dep_closure outer_ref_caps ?sw [] ?h0 =
     Some (Raised (ER_NON_GROUPING_FIELD_USED ''t.b'' ''WHERE clause'') ?h1)"
    by (rule mp [OF non_grouping_field_error
      [where caps = outer_ref_caps and sl = ?sw and h = ?h0 and mat = "[]" and gb = "[]"
         and mat' = "[]" and hc = ?h1
         and e = "ER_NON_GROUPING_FIELD_USED ''t.b'' ''WHERE clause''" and x = ?h1,
       THEN conjunct2, THEN conjunct2, THEN conjunct2, THEN conjunct1]
      conjI [OF c4 r4]])
  have c5: "collect_gb_fields ?sh [] [] ?h0 = Ok ([], [], ?h1)"
    by (simp add: collect_gb_fields_def check_allowed_unique_keys_def
        check_allowed_materialized_derived_def scn_defs)
  have r5: "check_where_and_get_new_dependencies t_caps ?sh [] ?h1 = Some (Ok ?h1)"
    by (simp add: check_where_and_get_new_dependencies_def t_select_def)
  have s5: "are_select_list_fields_allowed t_caps ?sh [] ?h1 = Ok True"
    by (simp add: are_select_list_fields_allowed_def scn_defs)
  have p5: "join_having ?sh = Some t_b \<and>
    excl_func_dep_on_grouping_fields t_caps ?h1 ?sh [] t_b None = (False, Some t_b)"
    by (simp add: scn_defs)
  have w5: "check_func_dep_closure t_caps ?sh [] ?h0 =
     Some (Raised (ER_NON_GROUPING_FIELD_USED (full_name (real_item t_b)) ''HAVING clause'') ?h1)"
    by (rule mp [OF non_grouping_field_error
      [where caps = t_caps and sl = ?sh and h = ?h0 and mat = "[]" and gb = "[]"
         and mat' = "[]" and hc = ?h1 and hw = ?h1 and okay = True and hv = t_b
         and a = t_b,
       THEN conjunct2, THEN conjunct2, THEN conjunct2, THEN conjunct2, THEN conjunct1]
      conjI [OF c5 conjI [OF r5 conjI [OF s5 p5]]]])
  have reach_l: "leaf_tables ?sl \<noteq> [] \<and> select_number ?sl \<noteq> UINT_MAX \<and>
    select_number ?sl \<noteq> INT_MAX \<and>
    clear_leaf_tables (leaf_tables ?sl) [] ?hi = ([], ?hz) \<and>
    set_update_table_fields ?sl ?hz = Ok ?hz \<and>
    (if group_list ?sl = [] \<and> having ?sl = None
     then need_check ?sl \<and>
          set_all_leaf_tables (leaf_tables ?sl) (set_subqueries_context ?sl ?hz) = Ok ?hz
     else ?hz = set_subqueries_context ?sl ?hz) \<and>
    collect_gb_fields ?sl [] [] ?hz = Ok ([], [], ?hk)"
    by (simp add: run_defs scn_defs fun_eq_iff)
  have reach_b: "leaf_tables ?sb \<noteq> [] \<and> select_number ?sb \<noteq> UINT_MAX \<and>
    select_number ?sb \<noteq> INT_MAX \<and>
    clear_leaf_tables (leaf_tables ?sb) [] ?hi = ([], ?hz) \<and>
    set_update_table_fields ?sb ?hz = Ok ?hz \<and>
    (if group_list ?sb = [] \<and> having ?sb = None
     then need_check ?sb \<and>
          set_all_leaf_tables (leaf_tables ?sb) (set_subqueries_context ?sb ?hz) = Ok ?hz
     else ?hz = set_subqueries_context ?sb ?hz) \<and>
    collect_gb_fields ?sb [] [] ?hz = Ok ([], [], ?hk)"
    by (simp add: run_defs scn_defs fun_eq_iff)
  have reach_h: "leaf_tables ?sh \<noteq> [] \<and> select_number ?sh \<noteq> UINT_MAX \<and>
    select_number ?sh \<noteq> INT_MAX \<and>
    clear_leaf_tables (leaf_tables ?sh) [] ?hi = ([], ?hz) \<and>
    set_update_table_fields ?sh ?hz = Ok ?hz \<and>
    (if group_list ?sh = [] \<and> having ?sh = None
     then need_check ?sh \<and>
          set_all_leaf_tables (leaf_tables ?sh) (set_subqueries_context ?sh ?hz) = Ok ?hz
     else ?hz = set_subqueries_context ?sh ?hz) \<and>
    collect_gb_fields ?sh [] [] ?hz = Ok ([], [], ?hk)"
    by (simp add: run_defs scn_defs fun_eq_iff)
  have reach_w: "leaf_tables ?sw \<noteq> [] \<and> select_number ?sw \<noteq> UINT_MAX \<and>
    select_number ?sw \<noteq> INT_MAX \<and>
    clear_leaf_tables (leaf_tables ?sw) [] ?hi = ([], ?hz) \<and>
    set_update_table_fields ?sw ?hz = Ok ?hz \<and>
    (if group_list ?sw = [] \<and> having ?sw = None
     then need_check ?sw \<and>
          set_all_leaf_tables (leaf_tables ?sw) (set_subqueries_context ?sw ?hz) = Ok ?hz
     else ?hz = set_subqueries_context ?sw ?hz) \<and>
    collect_gb_fields ?sw [] [] ?hz = Ok ([], [], ?hk)"
    by (simp add: run_defs scn_defs fun_eq_iff)
  have reach_e: "leaf_tables ?se \<noteq> [] \<and> select_number ?se \<noteq> UINT_MAX \<and>
    select_number ?se \<noteq> INT_MAX \<and>
    clear_leaf_tables (leaf_tables ?se) [] ?hi = ([], ?hz) \<and>
    set_update_table_fields ?se ?hz = Ok ?hz \<and>
    (if group_list ?se = [] \<and> having ?se = None
     then need_check ?se \<and>
          set_all_leaf_tables (leaf_tables ?se) (set_subqueries_context ?se ?hz) = Ok ?hz
     else ?hz = set_subqueries_context ?se ?hz) \<and>
    collect_gb_fields ?se [] [] ?hz = Ok ([], [], ?hk)"
    by (simp add: run_defs scn_defs fun_eq_iff eq_b_pk_def)
  have reach_p: "leaf_tables ?sp \<noteq> [] \<and> select_number ?sp \<noteq> UINT_MAX \<and>
    select_number ?sp \<noteq> INT_MAX \<and>
    clear_leaf_tables (leaf_tables ?sp) [] ?hi = ([], ?hz) \<and>
    set_update_table_fields ?sp ?hz = Ok ?hz \<and>
    (if group_list ?sp = [] \<and> having ?sp = None
     then need_check ?sp \<and>
          set_all_leaf_tables (leaf_tables ?sp) (set_subqueries_context ?sp ?hz) = Ok ?hz
     else ?hz = set_subqueries_context ?sp ?hz) \<and>
    collect_gb_fields ?sp [] [] ?hz = Ok ([], [], ?hk)"
    by (simp add: run_defs scn_defs fun_eq_iff)
  have wl: "check_where_and_get_new_dependencies t_caps ?sl [] ?hk = Some (Ok ?hk)"
    by (simp add: check_where_and_get_new_dependencies_def t_select_def)
  have wb: "check_where_and_get_new_dependencies t_caps ?sb [] ?hk = Some (Ok ?hk)"
    by (simp add: check_where_and_get_new_dependencies_def t_select_def)
  have wh: "check_where_and_get_new_dependencies t_caps ?sh [] ?hk = Some (Ok ?hk)"
    by (simp add: check_where_and_get_new_dependencies_def t_select_def)
  have wp: "check_where_and_get_new_dependencies t_caps ?sp [] ?hk = Some (Ok ?hk)"
    by (simp add: check_where_and_get_new_dependencies_def t_select_def)
  have q6: "item_list ?sl = [t_a] @ t_b # [] \<and>
    (\<forall>p \<in> set [t_a]. fst (excl_func_dep_on_grouping_fields t_caps ?hk ?sl [] p None)) \<and>
    excl_func_dep_on_grouping_fields t_caps ?hk ?sl [] t_b None = (False, Some t_b)"
    by (simp add: scn_defs)
  note k6 = mp [OF non_grouping_field_error
      [where caps = t_caps and sl = ?sl and h = ?hi and mat = "[]" and hz = ?hz and hu = ?hz
         and hq = ?hz and gb = "[]" and mat' = "[]" and hc = ?hk and hw = ?hk
         and pre = "[t_a]" and item = t_b and post = "[]" and a = t_b,
       THEN conjunct2, THEN conjunct2, THEN conjunct2, THEN conjunct2, THEN conjunct2,
       THEN conjunct1] reach_l]
  have w6: "check_func_dep t_caps ?sl ?hi = Some (Raised (?err ''SELECT list'') ?hk)"
    by (rule mp [OF mp [OF k6 [THEN conjunct2] wl, THEN conjunct1] q6])
  have q7: "item_list ?sb = [t_a] @ t_b # [] \<and>
    (\<forall>p \<in> set [t_a]. fst (excl_func_dep_on_grouping_fields t_caps ?hk ?sb [] p None)) \<and>
    excl_func_dep_on_grouping_fields t_caps ?hk ?sb [] t_b None = (False, Some t_b)"
    by (simp add: scn_defs)
  note k7 = mp [OF non_grouping_field_error
      [where caps = t_caps and sl = ?sb and h = ?hi and mat = "[]" and hz = ?hz and hu = ?hz
         and hq = ?hz and gb = "[]" and mat' = "[]" and hc = ?hk and hw = ?hk
         and pre = "[t_a]" and item = t_b and post = "[]" and a = t_b,
       THEN conjunct2, THEN conjunct2, THEN conjunct2, THEN conjunct2, THEN conjunct2,
       THEN conjunct1] reach_b]
  have w7: "check_func_dep t_caps ?sb ?hi = Some (Raised (?err ''SELECT list'') ?hk)"
    by (rule mp [OF mp [OF k7 [THEN conjunct2] wb, THEN conjunct1] q7])
  have q8: "(\<forall>p \<in> set (item_list ?sh).
              fst (excl_func_dep_on_grouping_fields t_caps ?hk ?sh [] p None)) \<and>
          join_having ?sh = Some t_b \<and>
          excl_func_dep_on_grouping_fields t_caps ?hk ?sh [] t_b None = (False, Some t_b)"
    by (simp add: scn_defs)
  note k8 = mp [OF non_grouping_field_error
      [where caps = t_caps and sl = ?sh and h = ?hi and mat = "[]" and hz = ?hz and hu = ?hz
         and hq = ?hz and gb = "[]" and mat' = "[]" and hc = ?hk and hw = ?hk
         and hv = t_b and a = t_b,
       THEN conjunct2, THEN conjunct2, THEN conjunct2, THEN conjunct2, THEN conjunct2,
       THEN conjunct1] reach_h]
  have w8: "check_func_dep t_caps ?sh ?hi = Some (Raised (?err ''HAVING clause'') ?hk)"
    by (rule mp [OF mp [OF k8 [THEN conjunct2] wh, THEN conjunct2, THEN conjunct1] q8])
  have q9: "join_conds ?sw = Some t_b \<and>
    \<not> (type_of t_b = COND_ITEM \<and> functype t_b = COND_AND_FUNC) \<and>
    \<not> (type_of t_b = FUNC_ITEM \<and> functype t_b = EQ_FUNC) \<and>
    excl_func_dep_from_equalities outer_ref_caps ?hk ?sw t_b None [] = (False, Some t_b, [])"
    by (simp add: outer_ref_caps_def scn_defs)
  have ww: "check_where_and_get_new_dependencies outer_ref_caps ?sw [] ?hk =
              Some (Raised (?err ''WHERE clause'') ?hk)"
    by (rule mp [OF non_grouping_field_error
      [where caps = outer_ref_caps and sl = ?sw and cond = t_b and hc = ?hk and a = t_b
         and flds = "[]" and mat' = "[]",
       THEN conjunct2, THEN conjunct2, THEN conjunct2, THEN conjunct2, THEN conjunct2,
       THEN conjunct2, THEN conjunct1] q9])
  note k9 = mp [OF non_grouping_field_error
      [where caps = outer_ref_caps and sl = ?sw and h = ?hi and mat = "[]" and hz = ?hz
         and hu = ?hz and hq = ?hz and gb = "[]" and mat' = "[]" and hc = ?hk
         and e = "?err ''WHERE clause''" and x = ?hk,
       THEN conjunct2, THEN conjunct2, THEN conjunct2, THEN conjunct2, THEN conjunct2,
       THEN conjunct1] reach_w]
  have w9: "check_func_dep outer_ref_caps ?sw ?hi = Some (Raised (?err ''WHERE clause'') ?hk)"
    by (rule mp [OF k9 [THEN conjunct1] ww])
  have q10: "join_conds ?se = Some (Item_eq eq_b_pk) \<and>
    \<not> ((type_of (argument0 eq_b_pk) = FUNC_ITEM \<and> \<not> is_deterministic (argument0 eq_b_pk)) \<or>
        (type_of (argument1 eq_b_pk) = FUNC_ITEM \<and> \<not> is_deterministic (argument1 eq_b_pk))) \<and>
    excl_func_dep_from_equalities outer_ref_caps ?hk ?se (argument0 eq_b_pk) None [] =
      (False, Some t_b, [])"
    by (simp add: outer_ref_caps_def scn_defs eq_b_pk_def)
  have we: "check_where_and_get_new_dependencies outer_ref_caps ?se [] ?hk =
              Some (Raised (?err ''WHERE clause'') ?hk)"
    by (rule mp [OF non_grouping_field_error
      [where caps = outer_ref_caps and sl = ?se and eq_item = eq_b_pk and hc = ?hk
         and a = t_b and mat' = "[]",
       THEN conjunct2, THEN conjunct2, THEN conjunct2, THEN conjunct2, THEN conjunct2,
       THEN conjunct2, THEN conjunct2, THEN conjunct2] q10])
  note k10 = mp [OF non_grouping_field_error
      [where caps = outer_ref_caps and sl = ?se and h = ?hi and mat = "[]" and hz = ?hz
         and hu = ?hz and hq = ?hz and gb = "[]" and mat' = "[]" and hc = ?hk
         and e = "?err ''WHERE clause''" and x = ?hk,
       THEN conjunct2, THEN conjunct2, THEN conjunct2, THEN conjunct2, THEN conjunct2,
       THEN conjunct1] reach_e]
  have w10: "check_func_dep outer_ref_caps ?se ?hi = Some (Raised (?err ''WHERE clause'') ?hk)"
    by (rule mp [OF k10 [THEN conjunct1] we])
  have q11: "(\<forall>p \<in> set (item_list ?sp).
              fst (excl_func_dep_on_grouping_fields t_caps ?hk ?sp [] p None)) \<and>
          (case join_having ?sp of
             None \<Rightarrow> True
           | Some hv \<Rightarrow> fst (excl_func_dep_on_grouping_fields t_caps ?hk ?sp [] hv None))"
    by (simp add: scn_defs)
  note k11 = mp [OF non_grouping_field_error
      [where caps = t_caps and sl = ?sp and h = ?hi and mat = "[]" and hz = ?hz and hu = ?hz
         and hq = ?hz and gb = "[]" and mat' = "[]" and hc = ?hk and hw = ?hk,
       THEN conjunct2, THEN conjunct2, THEN conjunct2, THEN conjunct2, THEN conjunct2,
       THEN conjunct1] reach_p]
  have w11: "check_func_dep t_caps ?sp ?hi = Some (Ok ?hk)"
    by (rule mp [OF mp [OF k11 [THEN conjunct2] wp, THEN conjunct2, THEN conjunct2] q11])
  have q12: "\<not> (type_of t_b = FUNC_ITEM \<and> functype t_b = EQ_FUNC) \<and>
    excl_func_dep_from_equalities outer_ref_caps ?hk ?sw t_b None [] = (False, Some t_b, [])"
    by (simp add: outer_ref_caps_def scn_defs)
  have w12: "check_where_conjuncts outer_ref_caps ?sw (t_b # [Item_eq eq_a_b]) None [] 0 [] ?hk =
     Raised (?err ''WHERE clause'') ?hk"
    by (rule mp [OF non_grouping_field_error
      [where caps = outer_ref_caps and sl = ?sw and item = t_b and hc = ?hk and a = t_b
         and item_arg = None and flds = "[]" and flds' = "[]" and post = "[Item_eq eq_a_b]"
         and n = 0 and eq_items = "[]",
       THEN conjunct2, THEN conjunct2, THEN conjunct2, THEN conjunct2, THEN conjunct2,
       THEN conjunct2, THEN conjunct2, THEN conjunct1] q12])
  show ?thesis
    using w1 w2 w3 w4 w5 w6 w7 w8 w9 w10 w11 w12 unfolding n by (intro conjI)
qed

subsection \<open>The Group-By Collector\<close>

text \<open>
  C9, as the code has it. On a query block with a non-empty GROUP BY list the collector
  marks the column of every grouping expression that is a column reference or resolves
  to one through reference nodes (a column whose index lies within the Allowed-Set of
  its table), returns the side list with the other grouping
  expressions appended in order, and then runs Key Closure once and Derived-Table
  Closure once, on the store the marking left; it returns whenever the pending derived
  tables are opened. On a query block with an empty GROUP BY list it returns at once:
  the store, the side list and the list of pending derived tables are the ones it was
  given, and neither closure is run.
\<close>

theorem group_by_collector:
  "(group_list sl = [] \<longrightarrow>
      collect_gb_fields sl mat_derived gb_items h = Ok (gb_items, mat_derived, h)) \<and>
   (group_list sl \<noteq> [] \<and> (\<forall>tbl \<in> set mat_derived. table tbl \<noteq> None) \<longrightarrow>
      (\<exists>r. collect_gb_fields sl mat_derived gb_items h = Ok r)) \<and>
   (group_list sl \<noteq> [] \<and>
    collect_gb_fields sl mat_derived gb_items h = Ok (gb_items', mat_derived', h') \<longrightarrow>
      (\<forall>item fld. item \<in> set (group_list sl) \<and> item_field_cast (real_item item) = Some fld \<and>
                   field_index fld < length (tmp_set (tables h (field_table fld))) \<longrightarrow>
                   Field_excl_func_dep_on_grouping_fields h' fld) \<and>
      gb_items' =
        gb_items @ filter (\<lambda>item. type_of (real_item item) \<noteq> FIELD_ITEM) (group_list sl) \<and>
      (\<exists>hg. collect_gb_fields_loop (group_list sl) gb_items h = Ok (gb_items', hg) \<and>
            check_allowed_materialized_derived mat_derived
              (snd (check_allowed_unique_keys sl hg)) =
              Ok (length mat_derived \<noteq> length mat_derived', mat_derived', h')))"
proof (intro conjI impI)
  assume "group_list sl = []"
  then show "collect_gb_fields sl mat_derived gb_items h = Ok (gb_items, mat_derived, h)"
    by (simp add: collect_gb_fields_def)
next
  assume a: "group_list sl \<noteq> [] \<and> (\<forall>tbl \<in> set mat_derived. table tbl \<noteq> None)"
  from gb_loop_result [of "group_list sl" gb_items h] obtain gb' hg where
    l: "collect_gb_fields_loop (group_list sl) gb_items h = Ok (gb', hg)" by blast
  from a mat_defined [of mat_derived "snd (check_allowed_unique_keys sl hg)"] obtain q where
    "check_allowed_materialized_derived mat_derived (snd (check_allowed_unique_keys sl hg)) = Ok q"
    by blast
  then show "\<exists>r. collect_gb_fields sl mat_derived gb_items h = Ok r"
    using a l by (cases q) (simp add: collect_gb_fields_def obind_simps)
next
  assume a: "group_list sl \<noteq> [] \<and>
    collect_gb_fields sl mat_derived gb_items h = Ok (gb_items', mat_derived', h')"
  from gb_loop_result [of "group_list sl" gb_items h] obtain hg where
    l: "collect_gb_fields_loop (group_list sl) gb_items h =
          Ok (gb_items @ filter (\<lambda>it. type_of (real_item it) \<noteq> FIELD_ITEM) (group_list sl), hg)"
    and g: "heap_grows h hg"
    and f: "\<forall>it fld. it \<in> set (group_list sl) \<and> item_field_cast (real_item it) = Some fld \<and>
                  field_index fld < length (tmp_set (tables h (field_table fld))) \<longrightarrow>
                  Field_excl_func_dep_on_grouping_fields hg fld"
    by blast
  let ?hk = "snd (check_allowed_unique_keys sl hg)"
  from a l obtain s where
    m: "check_allowed_materialized_derived mat_derived ?hk = Ok (s, mat_derived', h')"
    and gb: "gb_items' =
        gb_items @ filter (\<lambda>item. type_of (real_item item) \<noteq> FIELD_ITEM) (group_list sl)"
    by (auto simp: collect_gb_fields_def obind_def split: outcome.splits prod.splits)
  have g2: "heap_grows hg h'"
    using heap_grows_trans [OF keys_grows [of hg sl]] mat_grows [of ?hk mat_derived] m
    by (simp add: grows_to_simps)
  show "\<forall>item fld. item \<in> set (group_list sl) \<and> item_field_cast (real_item item) = Some fld \<and>
                   field_index fld < length (tmp_set (tables h (field_table fld))) \<longrightarrow>
                   Field_excl_func_dep_on_grouping_fields h' fld"
    using f field_allowed_mono [OF g2] by blast
  show "gb_items' =
        gb_items @ filter (\<lambda>item. type_of (real_item item) \<noteq> FIELD_ITEM) (group_list sl)"
    using gb .
  show "\<exists>hg. collect_gb_fields_loop (group_list sl) gb_items h = Ok (gb_items', hg) \<and>
            check_allowed_materialized_derived mat_derived
              (snd (check_allowed_unique_keys sl hg)) =
              Ok (length mat_derived \<noteq> length mat_derived', mat_derived', h')"
    using l m gb mat_result_flag [OF m] by auto
qed

text \<open>
  The claim as it was stated fails on an empty GROUP BY list. The block \<open>m_select\<close>, a
  subquery without GROUP BY and HAVING under an aggregating join, reaches the collector
  with its materialized derived table pending and all its columns allowed. The
  collector returns at once with the table still pending, although Derived-Table
  Closure, had it run, would have taken the table off the list.
\<close>

theorem empty_group_by_counterexample:
  "clear_leaf_tables (leaf_tables m_select) [] (m_heap [True, False]) =
     ([m_leaf], upd_tmp_set bitmap_clear_all 0 (m_heap [True, False])) \<and>
   set_all_leaf_tables (leaf_tables m_select)
     (upd_tmp_set bitmap_clear_all 0 (m_heap [True, False])) =
     Ok (upd_tmp_set bitmap_set_all 0 (upd_tmp_set bitmap_clear_all 0 (m_heap [True, False]))) \<and>
   collect_gb_fields m_select [m_leaf] []
     (upd_tmp_set bitmap_set_all 0 (upd_tmp_set bitmap_clear_all 0 (m_heap [True, False]))) =
     Ok ([], [m_leaf],
         upd_tmp_set bitmap_set_all 0 (upd_tmp_set bitmap_clear_all 0 (m_heap [True, False]))) \<and>
   (case check_allowed_materialized_derived [m_leaf]
           (snd (check_allowed_unique_keys m_select
                   (upd_tmp_set bitmap_set_all 0
                      (upd_tmp_set bitmap_clear_all 0 (m_heap [True, False]))))) of
      Ok r \<Rightarrow> fst r \<and> fst (snd r) = []
    | Raised e x \<Rightarrow> False
    | Undefined \<Rightarrow> False)"
  by (simp add: collect_gb_fields_def check_allowed_materialized_derived_def
      check_allowed_unique_keys_def m_select_def m_leaf_def m_heap_def upd_tmp_set_def
      bitmap_set_all_def bitmap_clear_all_def bitmap_is_clear_all_def bitmap_is_set_all_def
      obind_simps)

theorem group_by_collector_witness:
  "collect_gb_fields (t_select [] [t_a] None) [] [] (t_heap [True, False, False]) =
     Ok ([], [], t_heap [True, False, False]) \<and>
   (\<exists>gb' mat' h'.
      collect_gb_fields (t_select [Item_ref ''x'' 0 t_a, a_plus_1] [t_a] None) [] []
        (t_heap [False, False, False]) = Ok (gb', mat', h') \<and>
      Field_excl_func_dep_on_grouping_fields h' (Field 0 1) \<and>
      gb' = [a_plus_1])"
proof -
  let ?se = "t_select [] [t_a] None"
  let ?sg = "t_select [Item_ref ''x'' 0 t_a, a_plus_1] [t_a] None"
  let ?h0 = "t_heap [False, False, False]"
  have w1: "collect_gb_fields ?se [] [] (t_heap [True, False, False]) =
              Ok ([], [], t_heap [True, False, False])"
    using group_by_collector
      [where sl = ?se and mat_derived = "[]" and gb_items = "[]"
         and h = "t_heap [True, False, False]"]
    by (simp add: t_select_def)
  have ne: "group_list ?sg \<noteq> [] \<and> (\<forall>tbl \<in> set []. table tbl \<noteq> None)"
    by (simp add: t_select_def)
  obtain r where r: "collect_gb_fields ?sg [] [] ?h0 = Ok r"
    using group_by_collector
      [where sl = ?sg and mat_derived = "[]" and gb_items = "[]" and h = ?h0] ne
    by blast
  obtain gb' mat' h' where q: "r = (gb', mat', h')" by (cases r) auto
  note t = group_by_collector
      [where sl = ?sg and mat_derived = "[]" and gb_items = "[]" and h = ?h0
         and gb_items' = gb' and mat_derived' = mat' and h' = h']
  have pre: "Item_ref ''x'' 0 t_a \<in> set (group_list ?sg) \<and>
             item_field_cast (real_item (Item_ref ''x'' 0 t_a)) = Some (Field 0 1) \<and>
             field_index (Field 0 1) < length (tmp_set (tables ?h0 (field_table (Field 0 1))))"
    by (simp add: t_select_def t_a_def t_heap_def t_table_def)
  have a: "Field_excl_func_dep_on_grouping_fields h' (Field 0 1)"
    using t ne r q pre by blast
  have "gb' = [] @ filter (\<lambda>item. type_of (real_item item) \<noteq> FIELD_ITEM) (group_list ?sg)"
    using t ne r q by blast
  then have b: "gb' = [a_plus_1]"
    by (simp add: t_select_def t_a_def a_plus_1_def)
  show ?thesis using w1 r q a b by blast
qed

subsection \<open>The fixed-point loop: an entry with both sides satisfied\<close>

text \<open>
  C10. In the fixed-point loop, a deferred equality both of whose stored column sets are
  fully allowed in the current store is removed from the worklist, the flag
  \<^verbatim>\<open>extracted\<close> keeps its value and the store is left as it is: the pass goes on with
  the rest of the worklist as if the entry had not been there. A pass over a worklist
  of such entries only removes them all and returns the flag and the store it was
  given.
\<close>

theorem both_sides_satisfied_dropped:
  "(fields_allowed h (fields_l eq_it) \<and> fields_allowed h (fields_r eq_it) \<longrightarrow>
      deferred_equality_step eq_it extracted h = Ok (True, extracted, h) \<and>
      deferred_equalities_pass (eq_it # rest) kept extracted h =
        deferred_equalities_pass rest kept extracted h) \<and>
   ((\<forall>e \<in> set eq_items. fields_allowed h (fields_l e) \<and> fields_allowed h (fields_r e)) \<longrightarrow>
      deferred_equalities_pass eq_items kept extracted h = Ok (extracted, kept, h))"
proof (intro conjI impI)
  assume a: "fields_allowed h (fields_l eq_it) \<and> fields_allowed h (fields_r eq_it)"
  then show "deferred_equality_step eq_it extracted h = Ok (True, extracted, h)"
    by (simp add: step_both)
  from a show "deferred_equalities_pass (eq_it # rest) kept extracted h =
        deferred_equalities_pass rest kept extracted h"
    by (simp add: step_both obind_simps)
next
  assume "\<forall>e \<in> set eq_items. fields_allowed h (fields_l e) \<and> fields_allowed h (fields_r e)"
  then show "deferred_equalities_pass eq_items kept extracted h = Ok (extracted, kept, h)"
    by (induction eq_items) (simp_all add: step_both obind_simps)
qed

theorem both_sides_satisfied_dropped_witness:
  "deferred_equality_step deferred_a_b False (t_heap [False, True, True]) =
     Ok (True, False, t_heap [False, True, True]) \<and>
   deferred_equalities_pass [deferred_a_b, deferred_a_b] [] False (t_heap [False, True, True]) =
     Ok (False, [], t_heap [False, True, True])"
proof -
  let ?h = "t_heap [False, True, True]"
  have l: "fields_allowed ?h (fields_l deferred_a_b) \<and> fields_allowed ?h (fields_r deferred_a_b)"
    by (simp add: fields_allowed_def deferred_a_b_def t_heap_def t_table_def
        Field_excl_func_dep_on_grouping_fields_def bitmap_is_set_def)
  then have all: "\<forall>e \<in> set [deferred_a_b, deferred_a_b].
                    fields_allowed ?h (fields_l e) \<and> fields_allowed ?h (fields_r e)"
    by simp
  note t = both_sides_satisfied_dropped
    [where h = ?h and eq_it = deferred_a_b and extracted = False and kept = "[]"
       and eq_items = "[deferred_a_b, deferred_a_b]"]
  have "deferred_equality_step deferred_a_b False ?h = Ok (True, False, ?h)"
    using t l by blast
  moreover have "deferred_equalities_pass [deferred_a_b, deferred_a_b] [] False ?h =
                   Ok (False, [], ?h)"
    using t all by blast
  ultimately show ?thesis by blast
qed

end
